theory Spec2Isabelle
  imports Main "HOL-Library.Word" "HOL-Library.Sublist"
begin

section \<open>The restaurant: shared region, semaphores and the three actors\<close>

text \<open>
  The repository simulates a restaurant with one process per actor.  The sources hold
  three of them: the groups (\<^verbatim>\<open>semSharedMemGroup.c\<close>), the receptionist
  (\<^verbatim>\<open>semSharedMemReceptionist.c\<close>) and the waiter (\<^verbatim>\<open>semSharedMemWaiter.c\<close>).
  They share one memory region (\<^verbatim>\<open>sh->fSt\<close>) and a set of System V semaphores.

  Each process is embedded as a sequential program over a record \<open>proc\<close>: the shared
  region as the process sees it, the receptionist's private array \<open>groupRecord\<close>, and
  the list of the operations the process has performed on the region, on the semaphore
  set and on the log file, in program order.  A \<^verbatim>\<open>semDown\<close> is an event of that list
  like any other: that it may block, and for how long, is not modelled.  What another
  process does while this one waits is not part of the embedding either, with one
  exception: the request that a waiting receptionist or waiter finds in its mailbox is a
  parameter of the function that reads it.  The fields the properties are about
  (\<open>assignedTable\<close>, \<open>groupsWaiting\<close>, \<open>nGroups\<close>) are written by no process of the
  sources but the receptionist, and by it only between one \<^verbatim>\<open>semDown\<close> and \<^verbatim>\<open>semUp\<close>
  of the mutex.
\<close>

subsection \<open>Constants and types of the missing headers\<close>

text \<open>
  Modelled from the spec: the status constants of \<^verbatim>\<open>probConst.h\<close>, which is not among
  the sources.  The group statuses are the eight values the specification lists; the
  names are the ones the sources use where they use one (\<^verbatim>\<open>ATRECEPTION\<close>,
  \<^verbatim>\<open>FOOD_REQUEST\<close>, \<^verbatim>\<open>WAIT_FOR_FOOD\<close>, \<^verbatim>\<open>EAT\<close>, \<^verbatim>\<open>CHECKOUT\<close>, \<^verbatim>\<open>LEAVING\<close>).
\<close>

datatype group_stat =
  GOING | ATRECEPTION | WAITING | FOOD_REQUEST | WAIT_FOR_FOOD | EAT | CHECKOUT | LEAVING

text \<open>
  The statuses the receptionist and the waiter store.  In C they are integer macros;
  no theorem below compares a receptionist status with a waiter status.
\<close>

datatype staff_stat = WAIT_FOR_REQUEST | ASSIGNTABLE | RECVPAY | INFORM_CHEF | TAKE_TO_TABLE

text \<open>
  The request types, integer macros as well.  The receptionist tells \<^verbatim>\<open>TABLEREQ\<close>,
  \<^verbatim>\<open>BILLREQ\<close> and anything else apart, the waiter \<^verbatim>\<open>FOODREQ\<close>, \<^verbatim>\<open>FOODREADY\<close> and
  anything else; no theorem compares a request of one mailbox with one of the other.
\<close>

datatype req_type = TABLEREQ | BILLREQ | FOODREQ | FOODREADY

record request =
  reqType :: req_type
  reqGroup :: int

text \<open>
  The part of \<^verbatim>\<open>FULL_STAT\<close> the three sources read or write.  A C array is a function
  from the index.  The fields are C \<^verbatim>\<open>int\<close>s, held as \<open>int\<close>: the counts change by one
  at a time, and the one product of the sources, \<^verbatim>\<open>nGroups * 2\<close> in the loops of the
  receptionist and of the waiter, is computed with wrap-around (\<open>mulInt\<close> below).
\<close>

record FULL_STAT =
  nGroups :: int
  groupStat :: "int \<Rightarrow> group_stat"
  receptionistStat :: staff_stat
  waiterStat :: staff_stat
  assignedTable :: "int \<Rightarrow> int"
  groupsWaiting :: int
  receptionistRequest :: request
  waiterRequest :: request
  foodOrder :: int
  foodGroup :: int

text \<open>The semaphores of \<^verbatim>\<open>SHARED_DATA\<close>; the indexed ones carry the group or table id.\<close>

datatype sem =
  Mutex
  | ReceptionistReq
  | ReceptionistRequestPossible
  | WaiterRequest
  | WaiterRequestPossible
  | WaitForTable int
  | RequestReceived int
  | FoodArrived int
  | TableDone int
  | WaitOrder
  | OrderReceived

text \<open>
  What a process does to the outside, in program order: semaphore operations, stores into
  the shared region, and \<^verbatim>\<open>saveState\<close> with the region it writes to the log.
  \<^verbatim>\<open>saveState\<close> is a function of the missing \<^verbatim>\<open>logging.c\<close>; it is taken to return.
\<close>

datatype event =
  SemDown sem
  | SemUp sem
  | SaveState FULL_STAT
  | Store_groupStat int group_stat
  | Store_receptionistStat staff_stat
  | Store_waiterStat staff_stat
  | Store_receptionistRequest request
  | Store_waiterRequest request
  | Store_foodOrder int
  | Store_foodGroup int
  | Store_groupsWaiting int
  | Store_assignedTable int int

text \<open>
  \<open>semBudget\<close> decides which semaphore operation fails: \<open>None\<close> when none does,
  \<open>Some k\<close> when the first \<open>k\<close> succeed and the next one returns \<open>-1\<close>.
\<close>

record proc =
  fSt :: FULL_STAT
  groupRecord :: "int \<Rightarrow> int"
  trace :: "event list"
  semBudget :: "nat option"

text \<open>
  How a process ends other than by returning: \<^verbatim>\<open>exit(EXIT_FAILURE)\<close> after a failed
  semaphore operation, \<^verbatim>\<open>abort\<close> after a failed \<^verbatim>\<open>assert\<close>, and the
  \<^verbatim>\<open>return EXIT_FAILURE\<close> of \<^verbatim>\<open>main\<close>.  The error comes with the process as it was.
\<close>

datatype error =
  SemaphoreError
  | AssertionFailed
  | WrongParameterCount
  | WrongGroupId
  | WrongKey
  | ConnectionError

type_synonym result = "(error \<times> proc) + proc"

subsection \<open>Primitive steps\<close>

text \<open>
  A function of the sources is a list of steps, run in order; the first step that ends
  the process ends the run.
\<close>

fun run :: "(proc \<Rightarrow> result) list \<Rightarrow> proc \<Rightarrow> result" where
  "run [] p = Inr p"
| "run (f # fs) p = (case f p of Inl e \<Rightarrow> Inl e | Inr p' \<Rightarrow> run fs p')"

definition emit :: "event \<Rightarrow> proc \<Rightarrow> proc" where
  "emit e p = p\<lparr>trace := trace p @ [e]\<rparr>"

definition semOp :: "event \<Rightarrow> proc \<Rightarrow> result" where
  "semOp e p =
     (if semBudget p = Some 0 then Inl (SemaphoreError, p)
      else Inr (emit e (p\<lparr>semBudget := map_option (\<lambda>k. k - 1) (semBudget p)\<rparr>)))"

definition semDown :: "sem \<Rightarrow> proc \<Rightarrow> result" where
  "semDown s = semOp (SemDown s)"

definition semUp :: "sem \<Rightarrow> proc \<Rightarrow> result" where
  "semUp s = semOp (SemUp s)"

definition saveState :: "proc \<Rightarrow> result" where
  "saveState p = Inr (emit (SaveState (fSt p)) p)"

definition set_groupStat :: "int \<Rightarrow> group_stat \<Rightarrow> proc \<Rightarrow> result" where
  "set_groupStat g s p =
     Inr (emit (Store_groupStat g s) (p\<lparr>fSt := (fSt p)\<lparr>groupStat := (groupStat (fSt p))(g := s)\<rparr>\<rparr>))"

definition set_receptionistStat :: "staff_stat \<Rightarrow> proc \<Rightarrow> result" where
  "set_receptionistStat s p =
     Inr (emit (Store_receptionistStat s) (p\<lparr>fSt := (fSt p)\<lparr>receptionistStat := s\<rparr>\<rparr>))"

definition set_waiterStat :: "staff_stat \<Rightarrow> proc \<Rightarrow> result" where
  "set_waiterStat s p =
     Inr (emit (Store_waiterStat s) (p\<lparr>fSt := (fSt p)\<lparr>waiterStat := s\<rparr>\<rparr>))"

definition set_receptionistRequest :: "request \<Rightarrow> proc \<Rightarrow> result" where
  "set_receptionistRequest r p =
     Inr (emit (Store_receptionistRequest r) (p\<lparr>fSt := (fSt p)\<lparr>receptionistRequest := r\<rparr>\<rparr>))"

definition set_waiterRequest :: "request \<Rightarrow> proc \<Rightarrow> result" where
  "set_waiterRequest r p =
     Inr (emit (Store_waiterRequest r) (p\<lparr>fSt := (fSt p)\<lparr>waiterRequest := r\<rparr>\<rparr>))"

definition set_foodOrder :: "int \<Rightarrow> proc \<Rightarrow> result" where
  "set_foodOrder v p = Inr (emit (Store_foodOrder v) (p\<lparr>fSt := (fSt p)\<lparr>foodOrder := v\<rparr>\<rparr>))"

definition set_foodGroup :: "int \<Rightarrow> proc \<Rightarrow> result" where
  "set_foodGroup v p = Inr (emit (Store_foodGroup v) (p\<lparr>fSt := (fSt p)\<lparr>foodGroup := v\<rparr>\<rparr>))"

definition set_groupsWaiting :: "int \<Rightarrow> proc \<Rightarrow> result" where
  "set_groupsWaiting v p =
     Inr (emit (Store_groupsWaiting v) (p\<lparr>fSt := (fSt p)\<lparr>groupsWaiting := v\<rparr>\<rparr>))"

definition set_assignedTable :: "int \<Rightarrow> int \<Rightarrow> proc \<Rightarrow> result" where
  "set_assignedTable g t p =
     Inr (emit (Store_assignedTable g t)
            (p\<lparr>fSt := (fSt p)\<lparr>assignedTable := (assignedTable (fSt p))(g := t)\<rparr>\<rparr>))"

text \<open>The receptionist's private array is no part of the region: a store leaves no event.\<close>

definition set_groupRecord :: "int \<Rightarrow> int \<Rightarrow> proc \<Rightarrow> result" where
  "set_groupRecord g v p = Inr (p\<lparr>groupRecord := (groupRecord p)(g := v)\<rparr>)"

subsection \<open>The receptionist\<close>

abbreviation (input) TOARRIVE :: int where "TOARRIVE \<equiv> 0"
abbreviation (input) WAIT :: int where "WAIT \<equiv> 1"
abbreviation (input) ATTABLE :: int where "ATTABLE \<equiv> 2"
abbreviation (input) DONE :: int where "DONE \<equiv> 3"

text \<open>
  The inner loop of \<^verbatim>\<open>decideTableOrWait\<close>: it leaves its counter \<open>grp\<close> (\<^verbatim>\<open>group\<close> in C) at the first group that
  holds \<open>table\<close>, or at \<open>nGroups\<close>.
\<close>

function groupHolding :: "(int \<Rightarrow> int) \<Rightarrow> int \<Rightarrow> int \<Rightarrow> int \<Rightarrow> int" where
  "groupHolding assigned n table grp =
     (if grp < n
      then (if assigned grp = table then grp
            else groupHolding assigned n table (grp + 1))
      else grp)"
  by pat_completeness auto
termination
  by (relation "measure (\<lambda>(assigned, n, table, grp). nat (n - grp))") auto

declare groupHolding.simps [simp del]

text \<open>
  The outer loop, over the tables \<open>table, table + 1, ...\<close> below \<^verbatim>\<open>NUMTABLES\<close>, a
  macro of the missing \<^verbatim>\<open>probConst.h\<close> and a parameter here.
\<close>

function firstFreeTable :: "int \<Rightarrow> (int \<Rightarrow> int) \<Rightarrow> int \<Rightarrow> int \<Rightarrow> int" where
  "firstFreeTable NUMTABLES assigned n table =
     (if table < NUMTABLES
      then (if groupHolding assigned n table 0 \<noteq> n
            then firstFreeTable NUMTABLES assigned n (table + 1)
            else table)
      else -1)"
  by pat_completeness auto
termination
  by (relation "measure (\<lambda>(NUMTABLES, assigned, n, table). nat (NUMTABLES - table))") auto

declare firstFreeTable.simps [simp del]

text \<open>
  \<^verbatim>\<open>decideTableOrWait\<close>: the assertion on the receptionist's record of the group, then
  the scan over \<^verbatim>\<open>sh->fSt.assignedTable\<close> and \<^verbatim>\<open>sh->fSt.nGroups\<close>.
\<close>

definition decideTableOrWait :: "int \<Rightarrow> int \<Rightarrow> proc \<Rightarrow> (error \<times> proc) + int" where
  "decideTableOrWait NUMTABLES group_id p =
     (if \<not> groupRecord p group_id < 2 then Inl (AssertionFailed, p)
      else Inr (firstFreeTable NUMTABLES (assignedTable (fSt p)) (nGroups (fSt p)) 0))"

text \<open>The loop of \<^verbatim>\<open>decideNextGroup\<close>, from \<open>group_id\<close> on.\<close>

function firstWaiting :: "(int \<Rightarrow> int) \<Rightarrow> int \<Rightarrow> int \<Rightarrow> int" where
  "firstWaiting rec n group_id =
     (if group_id < n
      then (if rec group_id = WAIT then group_id
            else firstWaiting rec n (group_id + 1))
      else -1)"
  by pat_completeness auto
termination
  by (relation "measure (\<lambda>(rec, n, group_id). nat (n - group_id))") auto

declare firstWaiting.simps [simp del]

definition decideNextGroup :: "proc \<Rightarrow> int" where
  "decideNextGroup p =
     (if groupsWaiting (fSt p) \<le> 0 then -1
      else firstWaiting (groupRecord p) (nGroups (fSt p)) 0)"

text \<open>
  \<^verbatim>\<open>waitForGroup\<close>.  While the receptionist is blocked on \<^verbatim>\<open>receptionistReq\<close> a group
  stores its request in the mailbox and signals; \<open>posted\<close> is that request.
\<close>

definition receptionistMailboxFilled :: "request \<Rightarrow> proc \<Rightarrow> result" where
  "receptionistMailboxFilled posted p = Inr (p\<lparr>fSt := (fSt p)\<lparr>receptionistRequest := posted\<rparr>\<rparr>)"

definition waitForGroup :: "request \<Rightarrow> proc \<Rightarrow> (error \<times> proc) + (request \<times> proc)" where
  "waitForGroup posted p =
     (case run [semDown Mutex,
                set_receptionistStat WAIT_FOR_REQUEST,
                saveState,
                semUp Mutex,
                semDown ReceptionistReq,
                receptionistMailboxFilled posted,
                semDown Mutex] p of
        Inl e \<Rightarrow> Inl e
      | Inr p1 \<Rightarrow>
          (let ret = receptionistRequest (fSt p1) in
           case run [semUp Mutex, semUp ReceptionistRequestPossible] p1 of
             Inl e \<Rightarrow> Inl e
           | Inr p2 \<Rightarrow> Inr (ret, p2)))"

definition provideTableOrWaitingRoom :: "int \<Rightarrow> int \<Rightarrow> proc \<Rightarrow> result" where
  "provideTableOrWaitingRoom NUMTABLES group_id =
     run [semDown Mutex,
          set_receptionistStat ASSIGNTABLE,
          saveState,
          (\<lambda>p. case decideTableOrWait NUMTABLES group_id p of
                  Inl e \<Rightarrow> Inl e
                | Inr table_id \<Rightarrow>
                    (if table_id < 0
                     then run [set_groupsWaiting (groupsWaiting (fSt p) + 1),
                               set_groupRecord group_id WAIT] p
                     else run [set_groupRecord group_id ATTABLE,
                               set_assignedTable group_id table_id,
                               semUp (WaitForTable group_id)] p)),
          semUp Mutex]"

definition receivePayment :: "int \<Rightarrow> proc \<Rightarrow> result" where
  "receivePayment group_id =
     run [semDown Mutex,
          set_receptionistStat RECVPAY,
          saveState,
          set_groupRecord group_id DONE,
          (\<lambda>p. let table_id = assignedTable (fSt p) group_id in
                run [set_assignedTable group_id (-1),
                     (\<lambda>p. if groupsWaiting (fSt p) > 0
                           then (let new_group_id = decideNextGroup p in
                                 if new_group_id > -1
                                 then run [set_groupRecord new_group_id ATTABLE,
                                           semUp (WaitForTable new_group_id),
                                           set_groupsWaiting (groupsWaiting (fSt p) - 1),
                                           set_assignedTable new_group_id table_id] p
                                 else Inr p)
                           else Inr p),
                     semUp Mutex,
                     semUp (TableDone table_id)] p)]"

text \<open>One turn of the loop of \<^verbatim>\<open>main\<close>: wait for a request and dispatch on its type.\<close>

definition receptionistTurn :: "int \<Rightarrow> request \<Rightarrow> proc \<Rightarrow> result" where
  "receptionistTurn NUMTABLES posted p =
     (case waitForGroup posted p of
        Inl e \<Rightarrow> Inl e
      | Inr (req, p1) \<Rightarrow>
          (case reqType req of
             TABLEREQ \<Rightarrow> provideTableOrWaitingRoom NUMTABLES (reqGroup req) p1
           | BILLREQ \<Rightarrow> receivePayment (reqGroup req) p1
           | _ \<Rightarrow> Inr p1))"

subsection \<open>The waiter\<close>

text \<open>
  \<^verbatim>\<open>waitForClientOrChef\<close>.  While the waiter is blocked on \<^verbatim>\<open>waiterRequest\<close> a group
  or the chef stores a request in the waiter's mailbox and signals; \<open>posted\<close> is that
  request.
\<close>

definition waiterMailboxFilled :: "request \<Rightarrow> proc \<Rightarrow> result" where
  "waiterMailboxFilled posted p = Inr (p\<lparr>fSt := (fSt p)\<lparr>waiterRequest := posted\<rparr>\<rparr>)"

definition waitForClientOrChef :: "request \<Rightarrow> proc \<Rightarrow> (error \<times> proc) + (request \<times> proc)" where
  "waitForClientOrChef posted p =
     (case run [semDown Mutex,
                set_waiterStat WAIT_FOR_REQUEST,
                saveState,
                semUp Mutex,
                semDown WaiterRequest,
                waiterMailboxFilled posted,
                semDown Mutex] p of
        Inl e \<Rightarrow> Inl e
      | Inr p1 \<Rightarrow>
          (let req = waiterRequest (fSt p1) in
           case run [semUp Mutex, semUp WaiterRequestPossible] p1 of
             Inl e \<Rightarrow> Inl e
           | Inr p2 \<Rightarrow> Inr (req, p2)))"

definition informChef :: "int \<Rightarrow> proc \<Rightarrow> result" where
  "informChef group_id =
     run [semDown Mutex,
          set_waiterStat INFORM_CHEF,
          saveState,
          set_foodOrder 1,
          set_foodGroup group_id,
          (\<lambda>p. let table_id = assignedTable (fSt p) group_id in
                run [semUp Mutex,
                     semUp (RequestReceived table_id),
                     semUp WaitOrder,
                     semDown OrderReceived] p)]"

definition takeFoodToTable :: "int \<Rightarrow> proc \<Rightarrow> result" where
  "takeFoodToTable group_id =
     run [semDown Mutex,
          set_waiterStat TAKE_TO_TABLE,
          saveState,
          (\<lambda>p. let table_id = assignedTable (fSt p) group_id in
                run [semUp (FoodArrived table_id),
                     semUp Mutex] p)]"

text \<open>One turn of the loop of \<^verbatim>\<open>main\<close> of the waiter.\<close>

definition waiterTurn :: "request \<Rightarrow> proc \<Rightarrow> result" where
  "waiterTurn posted p =
     (case waitForClientOrChef posted p of
        Inl e \<Rightarrow> Inl e
      | Inr (req, p1) \<Rightarrow>
          (case reqType req of
             FOODREQ \<Rightarrow> informChef (reqGroup req) p1
           | FOODREADY \<Rightarrow> takeFoodToTable (reqGroup req) p1
           | _ \<Rightarrow> Inr p1))"

subsection \<open>The group\<close>

text \<open>
  \<^verbatim>\<open>goToRestaurant\<close> and \<^verbatim>\<open>eat\<close> sleep for a random time: they read two arrays of
  the region that nothing writes, and touch neither the region nor a semaphore.
\<close>

definition goToRestaurant :: "int \<Rightarrow> proc \<Rightarrow> result" where
  "goToRestaurant group_id p = Inr p"

definition eat :: "int \<Rightarrow> proc \<Rightarrow> result" where
  "eat group_id p = Inr p"

definition checkInAtReception :: "int \<Rightarrow> proc \<Rightarrow> result" where
  "checkInAtReception group_id =
     run [semDown ReceptionistRequestPossible,
          semDown Mutex,
          set_groupStat group_id ATRECEPTION,
          saveState,
          set_receptionistRequest \<lparr>reqType = TABLEREQ, reqGroup = group_id\<rparr>,
          semUp ReceptionistReq,
          semUp Mutex,
          semDown (WaitForTable group_id)]"

definition orderFood :: "int \<Rightarrow> proc \<Rightarrow> result" where
  "orderFood group_id =
     run [semDown WaiterRequestPossible,
          semDown Mutex,
          set_waiterRequest \<lparr>reqType = FOODREQ, reqGroup = group_id\<rparr>,
          semUp WaiterRequest,
          set_groupStat group_id FOOD_REQUEST,
          saveState,
          (\<lambda>p. let table_id = assignedTable (fSt p) group_id in
                run [semUp Mutex,
                     semDown (RequestReceived table_id)] p)]"

definition waitFood :: "int \<Rightarrow> proc \<Rightarrow> result" where
  "waitFood group_id =
     run [semDown Mutex,
          set_groupStat group_id WAIT_FOR_FOOD,
          saveState,
          (\<lambda>p. let table_id = assignedTable (fSt p) group_id in
                run [semUp Mutex,
                     semDown (FoodArrived table_id),
                     semDown Mutex,
                     set_groupStat group_id EAT,
                     saveState,
                     semUp Mutex] p)]"

definition checkOutAtReception :: "int \<Rightarrow> proc \<Rightarrow> result" where
  "checkOutAtReception group_id =
     run [semDown ReceptionistRequestPossible,
          semDown Mutex,
          set_groupStat group_id CHECKOUT,
          saveState,
          (\<lambda>p. let table_id = assignedTable (fSt p) group_id in
                run [set_receptionistRequest \<lparr>reqType = BILLREQ, reqGroup = group_id\<rparr>,
                     semUp ReceptionistReq,
                     semUp Mutex,
                     semDown (TableDone table_id),
                     semDown Mutex,
                     set_groupStat group_id LEAVING,
                     saveState,
                     semUp Mutex] p)]"

text \<open>The life cycle of a group, as \<^verbatim>\<open>main\<close> calls it.\<close>

definition groupLife :: "int \<Rightarrow> proc \<Rightarrow> result" where
  "groupLife n =
     run [goToRestaurant n,
          checkInAtReception n,
          orderFood n,
          waitFood n,
          eat n,
          checkOutAtReception n]"

text \<open>
  \<^verbatim>\<open>main\<close> of the group.  The C library and the connection functions are outside the
  sources, so what they return is given: for each \<^verbatim>\<open>strtol\<close> the value and the rest of
  the argument that \<^verbatim>\<open>tinp\<close> points to, and the results of \<^verbatim>\<open>semConnect\<close>,
  \<^verbatim>\<open>shmemConnect\<close>, \<^verbatim>\<open>shmemAttach\<close> and \<^verbatim>\<open>shmemDettach\<close>.  The group id is the
  \<^verbatim>\<open>long\<close> cast to \<^verbatim>\<open>unsigned int\<close> and stored in an \<^verbatim>\<open>int\<close>.  \<^verbatim>\<open>MAXGROUPS\<close> is a
  macro of the missing \<^verbatim>\<open>probConst.h\<close> and a parameter here.
\<close>

record group_args =
  argc :: int
  idValue :: int
  idRest :: string
  keyValue :: int
  keyRest :: string

record connection =
  semConnect :: int
  shmemConnect :: int
  shmemAttach :: int
  shmemDettach :: int

definition groupMain :: "int \<Rightarrow> group_args \<Rightarrow> connection \<Rightarrow> proc \<Rightarrow> result" where
  "groupMain MAXGROUPS args conn p =
     (if argc args \<noteq> 5 then Inl (WrongParameterCount, p)
      else
        (let n = sint (word_of_int (idValue args) :: 32 word) in
         if idRest args \<noteq> [] \<or> n \<ge> MAXGROUPS then Inl (WrongGroupId, p)
         else if keyRest args \<noteq> [] then Inl (WrongKey, p)
         else if semConnect conn = -1 then Inl (ConnectionError, p)
         else if shmemConnect conn = -1 then Inl (ConnectionError, p)
         else if shmemAttach conn = -1 then Inl (ConnectionError, p)
         else
           (case groupLife n p of
              Inl e \<Rightarrow> Inl e
            | Inr p' \<Rightarrow>
                if shmemDettach conn = -1 then Inl (ConnectionError, p') else Inr p')))"

subsection \<open>What a turn of the receptionist and of the waiter leaves behind\<close>

text \<open>
  The loops of the receptionist and of the waiter read \<^verbatim>\<open>sh->fSt.nGroups\<close> before every
  turn, so their termination rests on what a turn does to the region.  The functions of
  this subsection spell out, without any step that can fail, the process that each
  operation ends in when it returns; the lemmas say that the operations end there.
\<close>

text \<open>
  Two processes agree up to the semaphore budget: the same region, the same private
  array, the same events.
\<close>

definition sameBut :: "proc \<Rightarrow> proc \<Rightarrow> bool" where
  "sameBut p' q = (fSt p' = fSt q \<and> groupRecord p' = groupRecord q \<and> trace p' = trace q)"

text \<open>The process after \<^verbatim>\<open>waitForGroup\<close> has taken the request \<open>posted\<close>.\<close>

definition requestTaken :: "request \<Rightarrow> proc \<Rightarrow> proc" where
  "requestTaken posted p =
     (let fs1 = (fSt p)\<lparr>receptionistStat := WAIT_FOR_REQUEST\<rparr> in
      p\<lparr>fSt := fs1\<lparr>receptionistRequest := posted\<rparr>,
        trace := trace p @
          [SemDown Mutex, Store_receptionistStat WAIT_FOR_REQUEST, SaveState fs1, SemUp Mutex,
           SemDown ReceptionistReq, SemDown Mutex, SemUp Mutex,
           SemUp ReceptionistRequestPossible]\<rparr>)"

text \<open>
  The process after \<^verbatim>\<open>provideTableOrWaitingRoom\<close> has served group \<open>group_id\<close> with the
  decision \<open>table_id\<close>, when no semaphore operation fails: the events it appended and the
  stores it made.
\<close>

definition tableRequestServed :: "int \<Rightarrow> int \<Rightarrow> proc \<Rightarrow> proc" where
  "tableRequestServed table_id group_id p =
     (let fs1 = (fSt p)\<lparr>receptionistStat := ASSIGNTABLE\<rparr>;
          entered = [SemDown Mutex, Store_receptionistStat ASSIGNTABLE, SaveState fs1]
      in if table_id < 0
         then p\<lparr>fSt := fs1\<lparr>groupsWaiting := groupsWaiting (fSt p) + 1\<rparr>,
                groupRecord := (groupRecord p)(group_id := WAIT),
                trace := trace p @ entered @
                  [Store_groupsWaiting (groupsWaiting (fSt p) + 1), SemUp Mutex]\<rparr>
         else p\<lparr>fSt := fs1\<lparr>assignedTable := (assignedTable (fSt p))(group_id := table_id)\<rparr>,
                groupRecord := (groupRecord p)(group_id := ATTABLE),
                trace := trace p @ entered @
                  [Store_assignedTable group_id table_id, SemUp (WaitForTable group_id),
                   SemUp Mutex]\<rparr>)"

text \<open>
  The group \<^verbatim>\<open>decideNextGroup\<close> selects in \<^verbatim>\<open>receivePayment\<close>, which has recorded
  the paying group as \<^verbatim>\<open>DONE\<close> before it calls it.
\<close>

definition nextGroup :: "int \<Rightarrow> proc \<Rightarrow> int option" where
  "nextGroup group_id p =
     (let h = firstWaiting ((groupRecord p)(group_id := DONE)) (nGroups (fSt p)) 0
      in if groupsWaiting (fSt p) > 0 \<and> h > -1 then Some h else None)"

text \<open>
  The process after \<^verbatim>\<open>receivePayment\<close> has served group \<open>group_id\<close>, when no semaphore
  operation fails; \<open>next\<close> is the waiting group it has moved to the vacated table, if any.
\<close>

definition paymentReceived :: "int option \<Rightarrow> int \<Rightarrow> proc \<Rightarrow> proc" where
  "paymentReceived next group_id p =
     (let table_id = assignedTable (fSt p) group_id;
          fs1 = (fSt p)\<lparr>receptionistStat := RECVPAY\<rparr>;
          entered = [SemDown Mutex, Store_receptionistStat RECVPAY, SaveState fs1,
                     Store_assignedTable group_id (-1)];
          left = [SemUp Mutex, SemUp (TableDone table_id)]
      in case next of
           None \<Rightarrow>
             p\<lparr>fSt := fs1\<lparr>assignedTable := (assignedTable (fSt p))(group_id := -1)\<rparr>,
               groupRecord := (groupRecord p)(group_id := DONE),
               trace := trace p @ entered @ left\<rparr>
         | Some new_group_id \<Rightarrow>
             p\<lparr>fSt := fs1\<lparr>assignedTable :=
                            (assignedTable (fSt p))(group_id := -1, new_group_id := table_id),
                          groupsWaiting := groupsWaiting (fSt p) - 1\<rparr>,
               groupRecord := (groupRecord p)(group_id := DONE, new_group_id := ATTABLE),
               trace := trace p @ entered @
                 [SemUp (WaitForTable new_group_id),
                  Store_groupsWaiting (groupsWaiting (fSt p) - 1),
                  Store_assignedTable new_group_id table_id] @ left\<rparr>)"

text \<open>The process after one turn of the receptionist on the request \<open>posted\<close>.\<close>

definition turnDone :: "int \<Rightarrow> request \<Rightarrow> proc \<Rightarrow> proc" where
  "turnDone NUMTABLES posted p =
     (let p1 = requestTaken posted p; g = reqGroup posted in
      case reqType posted of
        TABLEREQ \<Rightarrow>
          tableRequestServed
            (firstFreeTable NUMTABLES (assignedTable (fSt p1)) (nGroups (fSt p1)) 0) g p1
      | BILLREQ \<Rightarrow> paymentReceived (nextGroup g p1) g p1
      | _ \<Rightarrow> p1)"

text \<open>
  The same for the waiter: the request taken, the chef informed, the food taken to the
  table, and one turn.
\<close>

definition clientRequestTaken :: "request \<Rightarrow> proc \<Rightarrow> proc" where
  "clientRequestTaken posted p =
     (let fs1 = (fSt p)\<lparr>waiterStat := WAIT_FOR_REQUEST\<rparr> in
      p\<lparr>fSt := fs1\<lparr>waiterRequest := posted\<rparr>,
        trace := trace p @
          [SemDown Mutex, Store_waiterStat WAIT_FOR_REQUEST, SaveState fs1, SemUp Mutex,
           SemDown WaiterRequest, SemDown Mutex, SemUp Mutex,
           SemUp WaiterRequestPossible]\<rparr>)"

definition chefInformed :: "int \<Rightarrow> proc \<Rightarrow> proc" where
  "chefInformed group_id p =
     (let fs1 = (fSt p)\<lparr>waiterStat := INFORM_CHEF\<rparr> in
      p\<lparr>fSt := fs1\<lparr>foodOrder := 1, foodGroup := group_id\<rparr>,
        trace := trace p @
          [SemDown Mutex, Store_waiterStat INFORM_CHEF, SaveState fs1,
           Store_foodOrder 1, Store_foodGroup group_id, SemUp Mutex,
           SemUp (RequestReceived (assignedTable (fSt p) group_id)), SemUp WaitOrder,
           SemDown OrderReceived]\<rparr>)"

definition foodTaken :: "int \<Rightarrow> proc \<Rightarrow> proc" where
  "foodTaken group_id p =
     (let fs1 = (fSt p)\<lparr>waiterStat := TAKE_TO_TABLE\<rparr> in
      p\<lparr>fSt := fs1,
        trace := trace p @
          [SemDown Mutex, Store_waiterStat TAKE_TO_TABLE, SaveState fs1,
           SemUp (FoodArrived (assignedTable (fSt p) group_id)), SemUp Mutex]\<rparr>)"

definition clientServed :: "request \<Rightarrow> proc \<Rightarrow> proc" where
  "clientServed posted p =
     (let p1 = clientRequestTaken posted p in
      case reqType posted of
        FOODREQ \<Rightarrow> chefInformed (reqGroup posted) p1
      | FOODREADY \<Rightarrow> foodTaken (reqGroup posted) p1
      | _ \<Rightarrow> p1)"

lemmas step_defs =
  semDown_def semUp_def semOp_def saveState_def emit_def set_groupStat_def
  set_receptionistStat_def set_waiterStat_def set_receptionistRequest_def
  set_waiterRequest_def set_foodOrder_def set_foodGroup_def set_groupsWaiting_def
  set_assignedTable_def set_groupRecord_def

lemma waitForGroup_any:
  "waitForGroup r p = Inr (req, p') \<Longrightarrow> req = r \<and> sameBut p' (requestTaken r p)"
  by (auto simp add: waitForGroup_def requestTaken_def receptionistMailboxFilled_def
      step_defs Let_def sameBut_def split: if_splits)

lemma provideTableOrWaitingRoom_any:
  "provideTableOrWaitingRoom NT g p = Inr p' \<Longrightarrow>
   groupRecord p g < 2 \<and>
   sameBut p' (tableRequestServed (firstFreeTable NT (assignedTable (fSt p)) (nGroups (fSt p)) 0) g p)"
  by (auto simp add: provideTableOrWaitingRoom_def decideTableOrWait_def tableRequestServed_def
      step_defs Let_def sameBut_def split: if_splits)

lemma receivePayment_any:
  "receivePayment g p = Inr p' \<Longrightarrow> sameBut p' (paymentReceived (nextGroup g p) g p)"
  by (auto simp add: receivePayment_def paymentReceived_def nextGroup_def decideNextGroup_def
      step_defs Let_def sameBut_def split: if_splits)


lemma waitForClientOrChef_any:
  "waitForClientOrChef r p = Inr (req, p') \<Longrightarrow> req = r \<and> sameBut p' (clientRequestTaken r p)"
  by (auto simp add: waitForClientOrChef_def clientRequestTaken_def waiterMailboxFilled_def
      step_defs Let_def sameBut_def split: if_splits)

lemma informChef_any:
  "informChef g p = Inr p' \<Longrightarrow> sameBut p' (chefInformed g p)"
  by (auto simp add: informChef_def chefInformed_def step_defs Let_def sameBut_def
      split: if_splits)

lemma takeFoodToTable_any:
  "takeFoodToTable g p = Inr p' \<Longrightarrow> sameBut p' (foodTaken g p)"
  by (auto simp add: takeFoodToTable_def foodTaken_def step_defs Let_def sameBut_def
      split: if_splits)

lemma sameBut_chefInformed:
  "sameBut p q \<Longrightarrow> sameBut (chefInformed g p) (chefInformed g q)"
  by (simp add: sameBut_def chefInformed_def Let_def)

lemma sameBut_foodTaken:
  "sameBut p q \<Longrightarrow> sameBut (foodTaken g p) (foodTaken g q)"
  by (simp add: sameBut_def foodTaken_def Let_def)

lemma sameBut_trans: "sameBut p q \<Longrightarrow> sameBut q r \<Longrightarrow> sameBut p r"
  by (simp add: sameBut_def)

lemma waiterTurn_any:
  assumes "waiterTurn r p = Inr p'"
  shows "sameBut p' (clientServed r p)"
proof -
  from assms obtain req p1 where w: "waitForClientOrChef r p = Inr (req, p1)"
    by (auto simp: waiterTurn_def split: sum.splits)
  from waitForClientOrChef_any [OF w] have req: "req = r"
    and p1: "sameBut p1 (clientRequestTaken r p)" by simp_all
  show ?thesis
  proof (cases "reqType r")
    case FOODREQ
    with assms w req have "informChef (reqGroup r) p1 = Inr p'" by (simp add: waiterTurn_def)
    from informChef_any [OF this] sameBut_chefInformed [OF p1] FOODREQ
    show ?thesis by (auto simp: clientServed_def intro: sameBut_trans)
  next
    case FOODREADY
    with assms w req have "takeFoodToTable (reqGroup r) p1 = Inr p'"
      by (simp add: waiterTurn_def)
    from takeFoodToTable_any [OF this] sameBut_foodTaken [OF p1] FOODREADY
    show ?thesis by (auto simp: clientServed_def intro: sameBut_trans)
  next
    case TABLEREQ
    with assms w req p1 show ?thesis by (simp add: waiterTurn_def clientServed_def)
  next
    case BILLREQ
    with assms w req p1 show ?thesis by (simp add: waiterTurn_def clientServed_def)
  qed
qed


subsection \<open>The life cycles of the receptionist and of the waiter\<close>

text \<open>
  The first loop of \<^verbatim>\<open>main\<close> of the receptionist:
  \<^verbatim>\<open>for (g = 0; g < sh->fSt.nGroups; g++) groupRecord[g] = TOARRIVE;\<close>
\<close>

function initGroupRecord :: "int \<Rightarrow> proc \<Rightarrow> proc" where
  "initGroupRecord g p =
     (if g < nGroups (fSt p)
      then initGroupRecord (g + 1) (p\<lparr>groupRecord := (groupRecord p)(g := TOARRIVE)\<rparr>)
      else p)"
  by pat_completeness auto
termination
  by (relation "measure (\<lambda>(g, p). nat (nGroups (fSt p) - g))") auto

declare initGroupRecord.simps [simp del]







text \<open>
  The receptionist and the waiter after they have served the requests of a list, one turn
  each: the states their loops pass through.
\<close>

fun receptionistServes :: "int \<Rightarrow> request list \<Rightarrow> proc \<Rightarrow> result" where
  "receptionistServes NUMTABLES [] p = Inr p"
| "receptionistServes NUMTABLES (r # rs) p =
     (case receptionistTurn NUMTABLES r p of
        Inl e \<Rightarrow> Inl e
      | Inr p' \<Rightarrow> receptionistServes NUMTABLES rs p')"


text \<open>The processes these runs end in when every turn returns.\<close>

fun servedAll :: "int \<Rightarrow> request list \<Rightarrow> proc \<Rightarrow> proc" where
  "servedAll NUMTABLES [] p = p"
| "servedAll NUMTABLES (r # rs) p = servedAll NUMTABLES rs (turnDone NUMTABLES r p)"


subsection \<open>Predicates the properties are stated with\<close>

text \<open>The process a run ends with, whether it returns or exits.\<close>

definition finalProc :: "result \<Rightarrow> proc" where
  "finalProc r = (case r of Inl (e, p) \<Rightarrow> p | Inr p \<Rightarrow> p)"

text \<open>
  \<open>precedes P Q es\<close>: some event with \<open>P\<close> is followed, later in \<open>es\<close>, by an event
  with \<open>Q\<close>.
\<close>

fun precedes :: "(event \<Rightarrow> bool) \<Rightarrow> (event \<Rightarrow> bool) \<Rightarrow> event list \<Rightarrow> bool" where
  "precedes P Q [] = False"
| "precedes P Q (e # es) = ((P e \<and> list_ex Q es) \<or> precedes P Q es)"

fun isSaveState :: "event \<Rightarrow> bool" where
  "isSaveState (SaveState fs) = True"
| "isSaveState e = False"

text \<open>
  The statuses of group \<open>g\<close> in the snapshots a process has written to the log, and the
  group statuses it has stored in the region, both in order.
\<close>

fun savedStatuses :: "int \<Rightarrow> event list \<Rightarrow> group_stat list" where
  "savedStatuses g [] = []"
| "savedStatuses g (SaveState fs # es) = groupStat fs g # savedStatuses g es"
| "savedStatuses g (e # es) = savedStatuses g es"

fun storedStatuses :: "event list \<Rightarrow> (int \<times> group_stat) list" where
  "storedStatuses [] = []"
| "storedStatuses (Store_groupStat g s # es) = (g, s) # storedStatuses es"
| "storedStatuses (e # es) = storedStatuses es"

text \<open>A table is free when no group in \<open>[0, nGroups)\<close> is assigned to it.\<close>

definition tableFree :: "FULL_STAT \<Rightarrow> int \<Rightarrow> bool" where
  "tableFree fs t = (\<forall>g \<in> set [0..nGroups fs - 1]. assignedTable fs g \<noteq> t)"

text \<open>
  No two groups in \<open>[0, nGroups)\<close> hold the same table: for two different groups, the
  first has no table (\<open>-1\<close>) or another table than the second.
\<close>

definition tableExclusive :: "FULL_STAT \<Rightarrow> bool" where
  "tableExclusive fs =
     (\<forall>g1 \<in> set [0..nGroups fs - 1]. \<forall>g2 \<in> set [0..nGroups fs - 1].
        g1 \<noteq> g2 \<longrightarrow> assignedTable fs g1 = -1 \<or> assignedTable fs g1 \<noteq> assignedTable fs g2)"

text \<open>
  What only the receptionist writes is the same in both processes: the number of groups,
  the tables, the count of waiting groups and the receptionist's own records.
\<close>

definition receptionistOwned :: "proc \<Rightarrow> proc \<Rightarrow> bool" where
  "receptionistOwned p p' =
     (nGroups (fSt p') = nGroups (fSt p) \<and> assignedTable (fSt p') = assignedTable (fSt p) \<and>
      groupsWaiting (fSt p') = groupsWaiting (fSt p) \<and> groupRecord p' = groupRecord p)"

text \<open>
  The number of groups the receptionist has recorded as \<^verbatim>\<open>WAIT\<close>, and the invariant
  that \<open>groupsWaiting\<close> is this number.
\<close>

definition waitingRecords :: "proc \<Rightarrow> nat" where
  "waitingRecords p = length (filter (\<lambda>g. groupRecord p g = WAIT) [0..nGroups (fSt p) - 1])"

definition waitingCounted :: "proc \<Rightarrow> bool" where
  "waitingCounted p = (groupsWaiting (fSt p) = int (waitingRecords p))"

text \<open>
  The protocol the requests in the receptionist's mailbox follow, as far as the
  receptionist's assertion needs it: every request comes from a group in \<open>[0, n)\<close>, and
  a table request is the first request of its group (\<open>seen\<close> are the groups of the
  requests before).  That each group sends one table request and then one bill request
  is a special case.
\<close>

fun followsProtocol :: "int \<Rightarrow> int list \<Rightarrow> request list \<Rightarrow> bool" where
  "followsProtocol n seen [] = True"
| "followsProtocol n seen (r # rs) =
     (0 \<le> reqGroup r \<and> reqGroup r < n \<and>
      (reqType r = TABLEREQ \<longrightarrow> reqGroup r \<notin> set seen) \<and>
      followsProtocol n (reqGroup r # seen) rs)"

text \<open>
  The protocol as far as the count of waiting groups needs it: in addition, a group
  posts its bill request only after the receptionist has signalled its
  \<^verbatim>\<open>waitForTable\<close> semaphore.  This is how the group is written: \<^verbatim>\<open>checkInAtReception\<close>
  ends with \<^verbatim>\<open>semDown\<close> on that semaphore, and \<^verbatim>\<open>checkOutAtReception\<close> comes after
  it.  The run of the receptionist is part of the predicate, since the signal is an event
  of that run.
\<close>

fun conforming :: "int \<Rightarrow> int list \<Rightarrow> request list \<Rightarrow> proc \<Rightarrow> bool" where
  "conforming NUMTABLES seen [] p = True"
| "conforming NUMTABLES seen (r # rs) p =
     (0 \<le> reqGroup r \<and> reqGroup r < nGroups (fSt p) \<and>
      (case reqType r of
         TABLEREQ \<Rightarrow> reqGroup r \<notin> set seen
       | BILLREQ \<Rightarrow> SemUp (WaitForTable (reqGroup r)) \<in> set (trace p)
       | _ \<Rightarrow> True) \<and>
      (case receptionistTurn NUMTABLES r p of
         Inl e \<Rightarrow> True
       | Inr p' \<Rightarrow> conforming NUMTABLES (reqGroup r # seen) rs p'))"

text \<open>
  Two invariants of the receptionist's records: a group that has sent no request is
  recorded as \<^verbatim>\<open>TOARRIVE\<close>, and a group whose \<^verbatim>\<open>waitForTable\<close> semaphore has been
  signalled is recorded as \<^verbatim>\<open>ATTABLE\<close> or \<^verbatim>\<open>DONE\<close>.
\<close>

definition unseenToArrive :: "int list \<Rightarrow> proc \<Rightarrow> bool" where
  "unseenToArrive seen p =
     (\<forall>g. 0 \<le> g \<and> g < nGroups (fSt p) \<and> g \<notin> set seen \<longrightarrow> groupRecord p g = TOARRIVE)"

definition signalledSeated :: "proc \<Rightarrow> bool" where
  "signalledSeated p =
     (\<forall>g. SemUp (WaitForTable g) \<in> set (trace p) \<longrightarrow> 2 \<le> groupRecord p g)"

subsection \<open>States and requests the properties are tried on\<close>

text \<open>
  Two groups, no table taken, nobody waiting, and the requests of an evening with one
  table (\<^verbatim>\<open>NUMTABLES = 1\<close>): both groups ask for a table, then both pay.  \<open>dinner\<close> are
  the requests the waiter finds on that evening.
\<close>

definition atOpening :: proc where
  "atOpening =
     \<lparr>fSt = \<lparr>nGroups = 2, groupStat = (\<lambda>_. GOING),
             receptionistStat = WAIT_FOR_REQUEST, waiterStat = WAIT_FOR_REQUEST,
             assignedTable = (\<lambda>_. -1), groupsWaiting = 0,
             receptionistRequest = \<lparr>reqType = TABLEREQ, reqGroup = 0\<rparr>,
             waiterRequest = \<lparr>reqType = FOODREQ, reqGroup = 0\<rparr>,
             foodOrder = 0, foodGroup = 0\<rparr>,
      groupRecord = (\<lambda>_. TOARRIVE), trace = [], semBudget = None\<rparr>"

definition evening :: "request list" where
  "evening =
     [\<lparr>reqType = TABLEREQ, reqGroup = 0\<rparr>, \<lparr>reqType = TABLEREQ, reqGroup = 1\<rparr>,
      \<lparr>reqType = BILLREQ, reqGroup = 0\<rparr>, \<lparr>reqType = BILLREQ, reqGroup = 1\<rparr>]"


text \<open>
  Two groups and the receptionist before its second turn: group 0 sits at table 0, group
  1 has just posted its table request.
\<close>

definition seated0 :: proc where
  "seated0 =
     \<lparr>fSt = \<lparr>nGroups = 2, groupStat = (\<lambda>_. GOING)(0 := ATRECEPTION, 1 := ATRECEPTION),
             receptionistStat = WAIT_FOR_REQUEST, waiterStat = WAIT_FOR_REQUEST,
             assignedTable = (\<lambda>_. -1)(0 := 0), groupsWaiting = 0,
             receptionistRequest = \<lparr>reqType = TABLEREQ, reqGroup = 1\<rparr>,
             waiterRequest = \<lparr>reqType = FOODREQ, reqGroup = 0\<rparr>,
             foodOrder = 0, foodGroup = 0\<rparr>,
      groupRecord = (\<lambda>_. TOARRIVE)(0 := ATTABLE), trace = [], semBudget = None\<rparr>"

text \<open>
  Two groups and the receptionist: group 0 sits at table 0 and has posted its bill
  request, group 1 waits for a table.
\<close>

definition queued1 :: proc where
  "queued1 =
     \<lparr>fSt = \<lparr>nGroups = 2, groupStat = (\<lambda>_. GOING)(0 := CHECKOUT, 1 := ATRECEPTION),
             receptionistStat = WAIT_FOR_REQUEST, waiterStat = WAIT_FOR_REQUEST,
             assignedTable = (\<lambda>_. -1)(0 := 0), groupsWaiting = 1,
             receptionistRequest = \<lparr>reqType = BILLREQ, reqGroup = 0\<rparr>,
             waiterRequest = \<lparr>reqType = FOODREADY, reqGroup = 0\<rparr>,
             foodOrder = 0, foodGroup = 0\<rparr>,
      groupRecord = (\<lambda>_. TOARRIVE)(0 := ATTABLE, 1 := WAIT), trace = [], semBudget = None\<rparr>"

text \<open>
  Two groups and one table, taken: group 0 eats at table 0, group 1 is on its way.
  \<open>waiting1\<close> is group 1 blocked at the end of its check-in, and \<open>queueing1\<close> the
  receptionist after it has served that request with \<^verbatim>\<open>NUMTABLES = 1\<close>.
\<close>

definition arriving1 :: proc where
  "arriving1 =
     \<lparr>fSt = \<lparr>nGroups = 2, groupStat = (\<lambda>_. GOING)(0 := EAT),
             receptionistStat = WAIT_FOR_REQUEST, waiterStat = WAIT_FOR_REQUEST,
             assignedTable = (\<lambda>_. -1)(0 := 0), groupsWaiting = 0,
             receptionistRequest = \<lparr>reqType = TABLEREQ, reqGroup = 0\<rparr>,
             waiterRequest = \<lparr>reqType = FOODREADY, reqGroup = 0\<rparr>,
             foodOrder = 0, foodGroup = 0\<rparr>,
      groupRecord = (\<lambda>_. TOARRIVE)(0 := ATTABLE), trace = [], semBudget = None\<rparr>"

definition waiting1 :: proc where
  "waiting1 = finalProc (checkInAtReception 1 arriving1)"

definition queueing1 :: proc where
  "queueing1 = finalProc (receptionistTurn 1 (receptionistRequest (fSt waiting1)) waiting1)"

text \<open>
  Requests of an evening on which a group with the id 3 has been started, with two
  groups in the configuration (\<^verbatim>\<open>main\<close> of the group admits every id below
  \<^verbatim>\<open>MAXGROUPS\<close>): it asks for the table first, groups 0 and 1 follow, then it pays.
\<close>

definition intruder :: "request list" where
  "intruder =
     [\<lparr>reqType = TABLEREQ, reqGroup = 3\<rparr>, \<lparr>reqType = TABLEREQ, reqGroup = 0\<rparr>,
      \<lparr>reqType = TABLEREQ, reqGroup = 1\<rparr>, \<lparr>reqType = BILLREQ, reqGroup = 3\<rparr>]"




section \<open>Properties\<close>

subsection \<open>The scans of the receptionist\<close>

lemma groupHolding_end:
  "g \<le> n \<Longrightarrow> groupHolding a n t g = n \<longleftrightarrow> (\<forall>k. g \<le> k \<and> k < n \<longrightarrow> a k \<noteq> t)"
proof (induction a n t g rule: groupHolding.induct)
  case (1 assigned n table grp)
  show ?case
  proof (cases "grp < n")
    case False
    with "1.prems" show ?thesis by (subst groupHolding.simps) auto
  next
    case True
    show ?thesis
    proof (cases "assigned grp = table")
      case True
      with \<open>grp < n\<close> show ?thesis by (subst groupHolding.simps) auto
    next
      case False
      have "groupHolding assigned n table grp = groupHolding assigned n table (grp + 1)"
        using \<open>grp < n\<close> False by (subst groupHolding.simps) simp
      moreover have "groupHolding assigned n table (grp + 1) = n \<longleftrightarrow>
          (\<forall>k. grp + 1 \<le> k \<and> k < n \<longrightarrow> assigned k \<noteq> table)"
        using "1.IH" \<open>grp < n\<close> False by simp
      moreover have "(\<forall>k. grp + 1 \<le> k \<and> k < n \<longrightarrow> assigned k \<noteq> table) \<longleftrightarrow>
          (\<forall>k. grp \<le> k \<and> k < n \<longrightarrow> assigned k \<noteq> table)"
        using False by (metis add1_zle_eq order_le_less)
      ultimately show ?thesis by simp
    qed
  qed
qed

lemma tableFree_iff:
  "tableFree fs t \<longleftrightarrow> (\<forall>k. 0 \<le> k \<and> k < nGroups fs \<longrightarrow> assignedTable fs k \<noteq> t)"
  by (auto simp: tableFree_def)

lemma table_held_iff:
  "0 \<le> nGroups fs \<Longrightarrow>
   groupHolding (assignedTable fs) (nGroups fs) t 0 = nGroups fs \<longleftrightarrow> tableFree fs t"
  using groupHolding_end [of 0 "nGroups fs" "assignedTable fs" t] by (simp add: tableFree_iff)

lemma firstFreeTable_result:
  "0 \<le> nGroups fs \<Longrightarrow> 0 \<le> t0 \<Longrightarrow> r = firstFreeTable NT (assignedTable fs) (nGroups fs) t0 \<Longrightarrow>
   r = -1 \<or> (t0 \<le> r \<and> r < NT \<and> tableFree fs r)"
proof (induction NT "assignedTable fs" "nGroups fs" t0 rule: firstFreeTable.induct)
  case (1 NUMTABLES table)
  show ?case
  proof (cases "table < NUMTABLES \<and> \<not> tableFree fs table")
    case True
    then have "r = firstFreeTable NUMTABLES (assignedTable fs) (nGroups fs) (table + 1)"
      using "1.prems" by (subst (asm) firstFreeTable.simps) (simp add: table_held_iff)
    with "1.hyps" True "1.prems" show ?thesis by (auto simp: table_held_iff)
  next
    case False
    then show ?thesis
      using "1.prems" by (subst (asm) firstFreeTable.simps) (auto simp: table_held_iff)
  qed
qed

lemma firstFreeTable_least:
  "0 \<le> nGroups fs \<Longrightarrow> 0 \<le> t0 \<Longrightarrow> r = firstFreeTable NT (assignedTable fs) (nGroups fs) t0 \<Longrightarrow>
   t0 \<le> t \<Longrightarrow> t < NT \<Longrightarrow> tableFree fs t \<Longrightarrow> t0 \<le> r \<and> r \<le> t"
proof (induction NT "assignedTable fs" "nGroups fs" t0 rule: firstFreeTable.induct)
  case (1 NUMTABLES table)
  show ?case
  proof (cases "tableFree fs table")
    case True
    then have "r = table"
      using "1.prems" by (subst (asm) firstFreeTable.simps) (simp add: table_held_iff)
    with "1.prems" show ?thesis by simp
  next
    case False
    then have "table \<noteq> t" using "1.prems" by auto
    then have lt: "table + 1 \<le> t" using "1.prems" by simp
    have "table < NUMTABLES" using "1.prems" by simp
    then have "r = firstFreeTable NUMTABLES (assignedTable fs) (nGroups fs) (table + 1)"
      using "1.prems" False by (subst (asm) firstFreeTable.simps) (simp add: table_held_iff)
    with "1.hyps" False \<open>table < NUMTABLES\<close> "1.prems" lt
    have "table + 1 \<le> r \<and> r \<le> t" by (simp add: table_held_iff)
    then show ?thesis by simp
  qed
qed

lemma firstWaiting_result:
  "r = firstWaiting rec n g0 \<Longrightarrow> r = -1 \<or> (g0 \<le> r \<and> r < n \<and> rec r = WAIT)"
proof (induction rec n g0 rule: firstWaiting.induct)
  case (1 rec n group_id)
  show ?case
  proof (cases "group_id < n \<and> rec group_id \<noteq> WAIT")
    case True
    then have "r = firstWaiting rec n (group_id + 1)"
      using "1.prems" by (subst (asm) firstWaiting.simps) simp
    with "1.IH" True show ?thesis by auto
  next
    case False
    then show ?thesis using "1.prems" by (subst (asm) firstWaiting.simps) auto
  qed
qed



lemma nextGroup_Some:
  assumes "nextGroup g p = Some h"
  shows "0 \<le> h \<and> h < nGroups (fSt p) \<and> h \<noteq> g \<and> groupRecord p h = WAIT \<and>
         0 < groupsWaiting (fSt p)"
proof -
  let ?h = "firstWaiting ((groupRecord p)(g := DONE)) (nGroups (fSt p)) 0"
  from assms have h: "?h = h" "h > -1" "0 < groupsWaiting (fSt p)"
    by (auto simp: nextGroup_def Let_def split: if_splits)
  from firstWaiting_result [of ?h "(groupRecord p)(g := DONE)" "nGroups (fSt p)" 0] h
  have "0 \<le> h \<and> h < nGroups (fSt p) \<and> ((groupRecord p)(g := DONE)) h = WAIT" by auto
  with h show ?thesis by (auto split: if_splits)
qed

subsection \<open>Runs in which no semaphore operation fails\<close>

lemma waitForGroup_effect:
  "semBudget p = None \<Longrightarrow> waitForGroup r p = Inr (r, requestTaken r p)"
  by (simp add: waitForGroup_def requestTaken_def receptionistMailboxFilled_def
      step_defs Let_def)

lemma provideTableOrWaitingRoom_effect:
  "groupRecord p g < 2 \<Longrightarrow> semBudget p = None \<Longrightarrow>
   provideTableOrWaitingRoom NT g p =
     Inr (tableRequestServed (firstFreeTable NT (assignedTable (fSt p)) (nGroups (fSt p)) 0) g p)"
  by (simp add: provideTableOrWaitingRoom_def decideTableOrWait_def tableRequestServed_def
      step_defs Let_def)

lemma receivePayment_effect:
  "semBudget p = None \<Longrightarrow> receivePayment g p = Inr (paymentReceived (nextGroup g p) g p)"
  by (simp add: receivePayment_def paymentReceived_def nextGroup_def decideNextGroup_def
      step_defs Let_def)

lemma turnDone_semBudget: "semBudget (turnDone NT r p) = semBudget p"
  by (simp add: turnDone_def requestTaken_def tableRequestServed_def paymentReceived_def
      Let_def split: req_type.splits option.splits)

lemma turnDone_fields:
  "nGroups (fSt (turnDone NT r p)) = nGroups (fSt p)"
  by (simp add: turnDone_def requestTaken_def tableRequestServed_def paymentReceived_def
      Let_def split: req_type.splits option.splits)

lemma receptionistTurn_effect:
  assumes "semBudget p = None"
    and "reqType r = TABLEREQ \<longrightarrow> groupRecord p (reqGroup r) < 2"
  shows "receptionistTurn NT r p = Inr (turnDone NT r p)"
proof -
  let ?p1 = "requestTaken r p"
  have p1: "semBudget ?p1 = None" "groupRecord ?p1 = groupRecord p"
    using assms(1) by (simp_all add: requestTaken_def Let_def)
  show ?thesis
  proof (cases "reqType r")
    case TABLEREQ
    with assms(2) p1 have "groupRecord ?p1 (reqGroup r) < 2" by simp
    from provideTableOrWaitingRoom_effect [OF this p1(1), of NT] TABLEREQ
    show ?thesis
      by (simp add: receptionistTurn_def waitForGroup_effect [OF assms(1)] turnDone_def Let_def)
  next
    case BILLREQ
    with receivePayment_effect [OF p1(1), of "reqGroup r"]
    show ?thesis
      by (simp add: receptionistTurn_def waitForGroup_effect [OF assms(1)] turnDone_def Let_def)
  next
    case FOODREQ
    then show ?thesis
      by (simp add: receptionistTurn_def waitForGroup_effect [OF assms(1)] turnDone_def Let_def)
  next
    case FOODREADY
    then show ?thesis
      by (simp add: receptionistTurn_def waitForGroup_effect [OF assms(1)] turnDone_def Let_def)
  qed
qed




subsection \<open>Runs that return\<close>

lemma sameBut_tableRequestServed:
  "sameBut p q \<Longrightarrow> sameBut (tableRequestServed t g p) (tableRequestServed t g q)"
  by (simp add: sameBut_def tableRequestServed_def Let_def)

lemma sameBut_paymentReceived:
  "sameBut p q \<Longrightarrow> sameBut (paymentReceived n g p) (paymentReceived n g q)"
  by (simp add: sameBut_def paymentReceived_def Let_def split: option.splits)

lemma sameBut_nextGroup: "sameBut p q \<Longrightarrow> nextGroup g p = nextGroup g q"
  by (simp add: sameBut_def nextGroup_def)

lemma receptionistTurn_any:
  assumes "receptionistTurn NT r p = Inr p'"
  shows "sameBut p' (turnDone NT r p) \<and> (reqType r = TABLEREQ \<longrightarrow> groupRecord p (reqGroup r) < 2)"
proof -
  from assms obtain req p1 where w: "waitForGroup r p = Inr (req, p1)"
    by (auto simp: receptionistTurn_def split: sum.splits)
  from waitForGroup_any [OF w] have req: "req = r"
    and p1: "sameBut p1 (requestTaken r p)" by simp_all
  have rec: "groupRecord p1 = groupRecord p" and fs: "assignedTable (fSt p1) = assignedTable (fSt (requestTaken r p))"
       "nGroups (fSt p1) = nGroups (fSt (requestTaken r p))"
    using p1 by (simp_all add: sameBut_def requestTaken_def Let_def)
  show ?thesis
  proof (cases "reqType r")
    case TABLEREQ
    with assms w req have "provideTableOrWaitingRoom NT (reqGroup r) p1 = Inr p'"
      by (simp add: receptionistTurn_def)
    from provideTableOrWaitingRoom_any [OF this] sameBut_tableRequestServed [OF p1] TABLEREQ rec fs
    show ?thesis by (auto simp: turnDone_def Let_def intro: sameBut_trans)
  next
    case BILLREQ
    with assms w req have "receivePayment (reqGroup r) p1 = Inr p'"
      by (simp add: receptionistTurn_def)
    from receivePayment_any [OF this] sameBut_paymentReceived [OF p1] sameBut_nextGroup [OF p1]
      BILLREQ
    show ?thesis by (auto simp: turnDone_def Let_def intro: sameBut_trans)
  next
    case FOODREQ
    with assms w req p1 show ?thesis by (simp add: receptionistTurn_def turnDone_def)
  next
    case FOODREADY
    with assms w req p1 show ?thesis by (simp add: receptionistTurn_def turnDone_def)
  qed
qed

lemma waitForGroup_Inl: "waitForGroup r p = Inl (e, q) \<Longrightarrow> e = SemaphoreError"
  by (auto simp add: waitForGroup_def receptionistMailboxFilled_def step_defs Let_def
      split: if_splits)

lemma provideTableOrWaitingRoom_Inl:
  "provideTableOrWaitingRoom NT g p = Inl (e, q) \<Longrightarrow>
   e = SemaphoreError \<or> (e = AssertionFailed \<and> \<not> groupRecord p g < 2)"
  by (auto simp add: provideTableOrWaitingRoom_def decideTableOrWait_def step_defs Let_def
      split: if_splits)

lemma receivePayment_Inl: "receivePayment g p = Inl (e, q) \<Longrightarrow> e = SemaphoreError"
  by (auto simp add: receivePayment_def decideNextGroup_def step_defs Let_def
      split: if_splits)

lemma receptionistTurn_Inl:
  assumes "receptionistTurn NT r p = Inl (e, q)"
  shows "e = SemaphoreError \<or>
         (e = AssertionFailed \<and> reqType r = TABLEREQ \<and> \<not> groupRecord p (reqGroup r) < 2)"
proof (cases "waitForGroup r p")
  case (Inl a)
  with assms waitForGroup_Inl [of r p e q] show ?thesis by (simp add: receptionistTurn_def)
next
  case (Inr b)
  obtain req p1 where b: "b = (req, p1)" by (cases b)
  from waitForGroup_any [of r p req p1] Inr b have req: "req = r"
    and rec: "groupRecord p1 = groupRecord p"
    by (simp_all add: sameBut_def requestTaken_def Let_def)
  show ?thesis
  proof (cases "reqType r")
    case TABLEREQ
    with assms Inr b req have "provideTableOrWaitingRoom NT (reqGroup r) p1 = Inl (e, q)"
      by (simp add: receptionistTurn_def)
    from provideTableOrWaitingRoom_Inl [OF this] TABLEREQ rec show ?thesis by simp
  next
    case BILLREQ
    with assms Inr b req have "receivePayment (reqGroup r) p1 = Inl (e, q)"
      by (simp add: receptionistTurn_def)
    from receivePayment_Inl [OF this] show ?thesis by simp
  next
    case FOODREQ
    with assms Inr b req show ?thesis by (simp add: receptionistTurn_def)
  next
    case FOODREADY
    with assms Inr b req show ?thesis by (simp add: receptionistTurn_def)
  qed
qed

subsection \<open>The loops and the requests they serve\<close>






lemma initGroupRecord_effect:
  "fSt (initGroupRecord g p) = fSt p \<and> trace (initGroupRecord g p) = trace p \<and>
   semBudget (initGroupRecord g p) = semBudget p \<and>
   (\<forall>k. groupRecord (initGroupRecord g p) k =
         (if g \<le> k \<and> k < nGroups (fSt p) then TOARRIVE else groupRecord p k))"
proof (induction g p rule: initGroupRecord.induct)
  case (1 g p)
  show ?case
  proof (cases "g < nGroups (fSt p)")
    case False
    then show ?thesis by (subst (1 2 3 4) initGroupRecord.simps) simp
  next
    case True
    with "1.IH" show ?thesis by (subst (1 2 3 4) initGroupRecord.simps) auto
  qed
qed

subsection \<open>The records of the receptionist under the protocol\<close>

lemma turnDone_record:
  assumes "groupRecord (turnDone NT r p) k \<noteq> groupRecord p k"
  shows "k = reqGroup r \<or> (groupRecord p k = WAIT \<and> 0 \<le> k \<and> k < nGroups (fSt p))"
proof (cases "reqType r")
  case TABLEREQ
  with assms show ?thesis
    by (auto simp: turnDone_def requestTaken_def tableRequestServed_def Let_def split: if_splits)
next
  case BILLREQ
  let ?p1 = "requestTaken r p"
  have p1: "groupRecord ?p1 = groupRecord p" "nGroups (fSt ?p1) = nGroups (fSt p)"
    by (simp_all add: requestTaken_def Let_def)
  show ?thesis
  proof (cases "nextGroup (reqGroup r) ?p1")
    case None
    with assms BILLREQ show ?thesis
      by (auto simp: turnDone_def paymentReceived_def Let_def p1 split: if_splits)
  next
    case (Some h)
    from nextGroup_Some [OF Some] p1
    have "0 \<le> h \<and> h < nGroups (fSt p) \<and> groupRecord p h = WAIT" by simp
    with assms BILLREQ Some show ?thesis
      by (auto simp: turnDone_def paymentReceived_def Let_def p1 split: if_splits)
  qed
next
  case FOODREQ
  with assms show ?thesis by (simp add: turnDone_def requestTaken_def Let_def)
next
  case FOODREADY
  with assms show ?thesis by (simp add: turnDone_def requestTaken_def Let_def)
qed

lemma unseenToArrive_turn:
  assumes "unseenToArrive seen p" and "receptionistTurn NT r p = Inr p'"
  shows "unseenToArrive (reqGroup r # seen) p' \<and> nGroups (fSt p') = nGroups (fSt p)"
proof -
  from receptionistTurn_any [OF assms(2)] have s: "sameBut p' (turnDone NT r p)" by simp
  then have n: "nGroups (fSt p') = nGroups (fSt p)"
    by (simp add: sameBut_def turnDone_fields)
  have "groupRecord p' g = TOARRIVE"
    if g: "0 \<le> g" "g < nGroups (fSt p)" "g \<notin> set (reqGroup r # seen)" for g
  proof -
    from g assms(1) have z: "groupRecord p g = TOARRIVE" by (simp add: unseenToArrive_def)
    have "groupRecord (turnDone NT r p) g = groupRecord p g"
      using turnDone_record [of NT r p g] g z by auto
    with s z show ?thesis by (simp add: sameBut_def)
  qed
  with n show ?thesis by (simp add: unseenToArrive_def)
qed

lemma receptionistServes_effect:
  "semBudget p = None \<Longrightarrow> unseenToArrive seen p \<Longrightarrow>
   followsProtocol (nGroups (fSt p)) seen rs \<Longrightarrow>
   receptionistServes NT rs p = Inr (servedAll NT rs p)"
proof (induction rs arbitrary: p seen)
  case Nil
  then show ?case by simp
next
  case (Cons r rs)
  from Cons.prems(3) have g: "0 \<le> reqGroup r" "reqGroup r < nGroups (fSt p)"
    and t: "reqType r = TABLEREQ \<longrightarrow> reqGroup r \<notin> set seen"
    and rest: "followsProtocol (nGroups (fSt p)) (reqGroup r # seen) rs" by simp_all
  from Cons.prems(2) g t have "reqType r = TABLEREQ \<longrightarrow> groupRecord p (reqGroup r) < 2"
    by (simp add: unseenToArrive_def)
  from receptionistTurn_effect [OF Cons.prems(1) this, of NT]
  have turn: "receptionistTurn NT r p = Inr (turnDone NT r p)" .
  from unseenToArrive_turn [OF Cons.prems(2) turn]
  have "unseenToArrive (reqGroup r # seen) (turnDone NT r p)"
    "nGroups (fSt (turnDone NT r p)) = nGroups (fSt p)" by simp_all
  with Cons.IH [of "turnDone NT r p" "reqGroup r # seen"] Cons.prems(1) rest turn
  show ?case by (simp add: turnDone_semBudget)
qed

lemma followsProtocol_take:
  "followsProtocol n seen rs \<Longrightarrow> followsProtocol n seen (take k rs)"
proof (induction rs arbitrary: k seen)
  case Nil
  then show ?case by simp
next
  case (Cons r rs)
  then show ?case by (cases k) simp_all
qed

subsection \<open>What the groups and the waiter leave alone\<close>

lemma checkInAtReception_owned:
  "checkInAtReception g p = Inr p' \<Longrightarrow> receptionistOwned p p'"
  by (auto simp add: checkInAtReception_def receptionistOwned_def step_defs Let_def
      split: if_splits)

lemma orderFood_owned: "orderFood g p = Inr p' \<Longrightarrow> receptionistOwned p p'"
  by (auto simp add: orderFood_def receptionistOwned_def step_defs Let_def split: if_splits)

lemma waitFood_owned: "waitFood g p = Inr p' \<Longrightarrow> receptionistOwned p p'"
  by (auto simp add: waitFood_def receptionistOwned_def step_defs Let_def split: if_splits)

lemma checkOutAtReception_owned:
  "checkOutAtReception g p = Inr p' \<Longrightarrow> receptionistOwned p p'"
  by (auto simp add: checkOutAtReception_def receptionistOwned_def step_defs Let_def
      split: if_splits)

lemma waiterTurn_owned: "waiterTurn r p = Inr p' \<Longrightarrow> receptionistOwned p p'"
  by (drule waiterTurn_any)
     (auto simp: sameBut_def receptionistOwned_def clientServed_def clientRequestTaken_def
        chefInformed_def foodTaken_def Let_def split: req_type.splits)

lemma others_owned:
  "waiterTurn r p = Inr p' \<or> checkInAtReception g p = Inr p' \<or> orderFood g p = Inr p' \<or>
   waitFood g p = Inr p' \<or> checkOutAtReception g p = Inr p' \<Longrightarrow> receptionistOwned p p'"
  using waiterTurn_owned checkInAtReception_owned orderFood_owned waitFood_owned
    checkOutAtReception_owned by blast

subsection \<open>The evening with one table\<close>

lemma finalProc_Inr [simp]: "finalProc (Inr p) = p"
  by (simp add: finalProc_def)

lemma atOpening_init: "initGroupRecord 0 atOpening = atOpening"
  by (simp add: initGroupRecord.simps atOpening_def fun_eq_iff)

lemmas eval_defs =
  turnDone_def requestTaken_def tableRequestServed_def paymentReceived_def nextGroup_def
  firstFreeTable.simps groupHolding.simps firstWaiting.simps Let_def

lemma atOpening_facts:
  "semBudget atOpening = None" "nGroups (fSt atOpening) = 2" "trace atOpening = []"
  "unseenToArrive [] atOpening" "tableExclusive (fSt atOpening)"
  "groupsWaiting (fSt atOpening) = 0"
  by (simp_all add: atOpening_def unseenToArrive_def tableExclusive_def)

lemma evening_protocol: "followsProtocol 2 [] evening"
  by (simp add: evening_def)

lemma evening_served:
  "receptionistServes 1 evening atOpening = Inr (servedAll 1 evening atOpening)"
  using receptionistServes_effect [OF atOpening_facts(1,4), of evening 1] evening_protocol
  by (simp add: atOpening_facts)

lemma evening_prefix_served:
  "receptionistServes 1 (take k evening) atOpening = Inr (servedAll 1 (take k evening) atOpening)"
  using receptionistServes_effect [OF atOpening_facts(1,4), of "take k evening" 1]
    followsProtocol_take [OF evening_protocol, of k]
  by (simp add: atOpening_facts)

lemma evening_two:
  "groupsWaiting (fSt (servedAll 1 (take 2 evening) atOpening)) = 1 \<and>
   groupRecord (servedAll 1 (take 2 evening) atOpening) 0 = ATTABLE \<and>
   groupRecord (servedAll 1 (take 2 evening) atOpening) 1 = WAIT \<and>
   assignedTable (fSt (servedAll 1 (take 2 evening) atOpening)) 0 = 0 \<and>
   assignedTable (fSt (servedAll 1 (take 2 evening) atOpening)) 1 = -1"
  by (simp add: evening_def atOpening_def eval_defs)

lemma upto_0_1: "[0..1] = [0, 1::int]"
  by (simp add: upto.simps)

lemma seated0_free: "\<not> tableFree (fSt seated0) 0" "tableFree (fSt seated0) 1"
  by (simp_all add: tableFree_def seated0_def)

subsection \<open>C1: no table is held by two groups\<close>

lemma receptionistOwned_invariants:
  "receptionistOwned p p' \<Longrightarrow>
   tableExclusive (fSt p') = tableExclusive (fSt p) \<and> waitingCounted p' = waitingCounted p"
  by (simp add: receptionistOwned_def tableExclusive_def waitingCounted_def waitingRecords_def)

lemma tableExclusive_iff:
  "tableExclusive fs \<longleftrightarrow>
     (\<forall>g1 g2. 0 \<le> g1 \<and> g1 < nGroups fs \<and> 0 \<le> g2 \<and> g2 < nGroups fs \<and> g1 \<noteq> g2 \<longrightarrow>
        assignedTable fs g1 = -1 \<or> assignedTable fs g1 \<noteq> assignedTable fs g2)"
proof -
  have "set [0..nGroups fs - 1] = {g. 0 \<le> g \<and> g < nGroups fs}" by auto
  then show ?thesis unfolding tableExclusive_def by simp blast
qed

lemma tableExclusive_tableRequestServed:
  assumes "tableExclusive (fSt p)" and "0 \<le> g" and "g < nGroups (fSt p)"
    and "t = firstFreeTable NT (assignedTable (fSt p)) (nGroups (fSt p)) 0"
  shows "tableExclusive (fSt (tableRequestServed t g p))"
proof (cases "t < 0")
  case True
  with assms(1) show ?thesis
    by (simp add: tableRequestServed_def Let_def tableExclusive_iff)
next
  case False
  from assms(2,3) have n: "0 \<le> nGroups (fSt p)" by simp
  from firstFreeTable_result [OF n _ assms(4)] False have "tableFree (fSt p) t" by auto
  then have free: "\<And>k. 0 \<le> k \<Longrightarrow> k < nGroups (fSt p) \<Longrightarrow> assignedTable (fSt p) k \<noteq> t"
    by (simp add: tableFree_iff)
  from assms(1) have ex: "\<And>g1 g2. 0 \<le> g1 \<Longrightarrow> g1 < nGroups (fSt p) \<Longrightarrow> 0 \<le> g2 \<Longrightarrow>
      g2 < nGroups (fSt p) \<Longrightarrow> g1 \<noteq> g2 \<Longrightarrow>
      assignedTable (fSt p) g1 = -1 \<or> assignedTable (fSt p) g1 \<noteq> assignedTable (fSt p) g2"
    by (simp add: tableExclusive_iff)
  show ?thesis
    using False free ex
    by (auto simp add: tableRequestServed_def Let_def tableExclusive_iff)
qed

lemma tableExclusive_paymentReceived:
  assumes "tableExclusive (fSt p)" and "0 \<le> g" and "g < nGroups (fSt p)"
    and "next = nextGroup g p"
  shows "tableExclusive (fSt (paymentReceived next g p))"
proof -
  from assms(1) have ex: "\<And>g1 g2. 0 \<le> g1 \<Longrightarrow> g1 < nGroups (fSt p) \<Longrightarrow> 0 \<le> g2 \<Longrightarrow>
      g2 < nGroups (fSt p) \<Longrightarrow> g1 \<noteq> g2 \<Longrightarrow>
      assignedTable (fSt p) g1 = -1 \<or> assignedTable (fSt p) g1 \<noteq> assignedTable (fSt p) g2"
    by (simp add: tableExclusive_iff)
  show ?thesis
  proof (cases "next")
    case None
    with ex show ?thesis
      by (auto simp add: paymentReceived_def Let_def tableExclusive_iff)
  next
    case (Some h)
    with assms(4) nextGroup_Some [of g p h] have h: "0 \<le> h" "h < nGroups (fSt p)" "h \<noteq> g"
      by simp_all
    show ?thesis
      unfolding tableExclusive_iff
    proof (intro allI impI)
      fix g1 g2
      assume a: "0 \<le> g1 \<and> g1 < nGroups (fSt (paymentReceived next g p)) \<and> 0 \<le> g2 \<and>
        g2 < nGroups (fSt (paymentReceived next g p)) \<and> g1 \<noteq> g2"
      then have r: "0 \<le> g1" "g1 < nGroups (fSt p)" "0 \<le> g2" "g2 < nGroups (fSt p)" "g1 \<noteq> g2"
        by (simp_all add: paymentReceived_def Let_def Some)
      have at: "assignedTable (fSt (paymentReceived next g p)) =
          (assignedTable (fSt p))(g := -1, h := assignedTable (fSt p) g)"
        by (simp add: paymentReceived_def Let_def Some)
      show "assignedTable (fSt (paymentReceived next g p)) g1 = -1 \<or>
            assignedTable (fSt (paymentReceived next g p)) g1 \<noteq>
            assignedTable (fSt (paymentReceived next g p)) g2"
        unfolding at
        using r h assms(2,3) ex [of g g2] ex [of g1 g] ex [of g1 g2]
        by (auto split: if_splits)
    qed
  qed
qed

lemma tableExclusive_turn:
  assumes "tableExclusive (fSt p)" and "0 \<le> reqGroup r" and "reqGroup r < nGroups (fSt p)"
    and "receptionistTurn NT r p = Inr p'"
  shows "tableExclusive (fSt p') \<and> nGroups (fSt p') = nGroups (fSt p)"
proof -
  let ?p1 = "requestTaken r p"
  have p1: "tableExclusive (fSt ?p1)" "nGroups (fSt ?p1) = nGroups (fSt p)"
    using assms(1) by (simp_all add: requestTaken_def Let_def tableExclusive_iff)
  from receptionistTurn_any [OF assms(4)] have s: "fSt p' = fSt (turnDone NT r p)"
    by (simp add: sameBut_def)
  have "tableExclusive (fSt (turnDone NT r p))"
  proof (cases "reqType r")
    case TABLEREQ
    with tableExclusive_tableRequestServed [OF p1(1), of "reqGroup r" _ NT] assms(2,3) p1(2)
    show ?thesis by (simp add: turnDone_def Let_def)
  next
    case BILLREQ
    with tableExclusive_paymentReceived [OF p1(1), of "reqGroup r"] assms(2,3) p1(2)
    show ?thesis by (simp add: turnDone_def Let_def)
  next
    case FOODREQ
    with p1 show ?thesis by (simp add: turnDone_def Let_def)
  next
    case FOODREADY
    with p1 show ?thesis by (simp add: turnDone_def Let_def)
  qed
  with s show ?thesis by (simp add: turnDone_fields)
qed

lemma tableExclusive_serves:
  "tableExclusive (fSt p) \<Longrightarrow>
   \<forall>r \<in> set reqs. 0 \<le> reqGroup r \<and> reqGroup r < nGroups (fSt p) \<Longrightarrow>
   receptionistServes NT reqs p = Inr p' \<Longrightarrow> tableExclusive (fSt p')"
proof (induction reqs arbitrary: p)
  case Nil
  then show ?case by simp
next
  case (Cons r reqs)
  from Cons.prems(3) obtain p1 where t: "receptionistTurn NT r p = Inr p1"
    and s: "receptionistServes NT reqs p1 = Inr p'" by (auto split: sum.splits)
  from tableExclusive_turn [OF Cons.prems(1) _ _ t] Cons.prems(2)
  have "tableExclusive (fSt p1)" "nGroups (fSt p1) = nGroups (fSt p)" by simp_all
  with Cons.IH [of p1] Cons.prems(2) s show ?case by simp
qed

lemma tableExclusive_provide:
  assumes "tableExclusive (fSt p)" and "0 \<le> g" and "g < nGroups (fSt p)"
    and "provideTableOrWaitingRoom NT g p = Inr p'"
  shows "tableExclusive (fSt p')"
  using provideTableOrWaitingRoom_any [OF assms(4)]
    tableExclusive_tableRequestServed [OF assms(1,2,3) refl, of NT]
  by (simp add: sameBut_def)

lemma tableExclusive_payment:
  assumes "tableExclusive (fSt p)" and "0 \<le> g" and "g < nGroups (fSt p)"
    and "receivePayment g p = Inr p'"
  shows "tableExclusive (fSt p')"
  using receivePayment_any [OF assms(4)]
    tableExclusive_paymentReceived [OF assms(1,2,3) refl]
  by (simp add: sameBut_def)

lemma intruder_served:
  "receptionistServes 1 (take k intruder) atOpening = Inr (servedAll 1 (take k intruder) atOpening)"
proof -
  have "receptionistServes 1 rs atOpening = Inr (servedAll 1 rs atOpening)"
    if "rs \<in> {[], take 1 intruder, take 2 intruder, take 3 intruder, intruder}" for rs
    using that
    by (auto simp add: intruder_def receptionistTurn_effect turnDone_semBudget atOpening_def
        eval_defs)
  moreover have "take k intruder \<in> {[], take 1 intruder, take 2 intruder, take 3 intruder, intruder}"
  proof -
    consider "k = 0" | "k = 1" | "k = 2" | "k = 3" | "4 \<le> k" by linarith
    then show ?thesis by cases (simp_all add: intruder_def)
  qed
  ultimately show ?thesis by blast
qed

text \<open>
  Claim C1, as amended.  Let no two groups in \<open>[0, nGroups)\<close> hold the same table in the
  region of \<open>p\<close>.  Then none do after \<^verbatim>\<open>provideTableOrWaitingRoom\<close> or
  \<^verbatim>\<open>receivePayment\<close> has served a group of that range and returned, and none do after
  the receptionist has served any list of requests from groups of that range, whatever
  the requests are.  The operations of the waiter and of the groups leave the tables as
  they are.  So every state reached from one without a shared table has none, as long as
  the groups that run have ids in \<open>[0, nGroups)\<close>.

  The restriction to that range is needed.  The receptionist does not check the id of a
  request, its scans look at the groups in \<open>[0, nGroups)\<close> only, and \<^verbatim>\<open>main\<close> of the group
  admits every id below \<^verbatim>\<open>MAXGROUPS\<close> (see C9).  With two groups configured and one
  table, a group with the id 3 gets table 0, and so does group 0 after it: two groups
  hold table 0.  When group 3 pays, \<^verbatim>\<open>receivePayment\<close> hands table 0 to the waiting
  group 1, while group 0 still holds it.
\<close>

theorem table_exclusivity:
  assumes "tableExclusive (fSt p)"
  shows "(0 \<le> g \<and> g < nGroups (fSt p) \<and> provideTableOrWaitingRoom NT g p = Inr p'
            \<longrightarrow> tableExclusive (fSt p'))
       \<and> (0 \<le> g \<and> g < nGroups (fSt p) \<and> receivePayment g p = Inr p'
            \<longrightarrow> tableExclusive (fSt p'))
       \<and> ((\<forall>r \<in> set reqs. 0 \<le> reqGroup r \<and> reqGroup r < nGroups (fSt p)) \<and>
            receptionistServes NT reqs p = Inr p'
            \<longrightarrow> tableExclusive (fSt p'))
       \<and> (waiterTurn r p = Inr p' \<or> checkInAtReception g p = Inr p' \<or>
            orderFood g p = Inr p' \<or> waitFood g p = Inr p' \<or>
            checkOutAtReception g p = Inr p'
            \<longrightarrow> tableExclusive (fSt p'))"
  using tableExclusive_provide [OF assms] tableExclusive_payment [OF assms]
    tableExclusive_serves [OF assms] others_owned [of r p p' g]
    receptionistOwned_invariants [of p p'] assms
  by blast

theorem table_exclusivity_witness:
  "tableExclusive (fSt (finalProc (provideTableOrWaitingRoom 1 0 atOpening)))
   \<and> tableExclusive (fSt (finalProc (receivePayment 0 queued1)))
   \<and> assignedTable (fSt (finalProc (receivePayment 0 queued1))) 1 = 0
   \<and> tableExclusive (fSt (finalProc (receptionistServes 1 evening atOpening)))
   \<and> tableExclusive (fSt (finalProc (waitFood 0 queued1)))"
proof -
  have q: "tableExclusive (fSt queued1)" "semBudget queued1 = None"
    "(0::int) \<le> 0 \<and> 0 < nGroups (fSt queued1)"
    by (simp_all add: queued1_def tableExclusive_def)
  have o: "(0::int) \<le> 0 \<and> 0 < nGroups (fSt atOpening)" "groupRecord atOpening 0 < 2"
    "\<forall>r \<in> set evening. 0 \<le> reqGroup r \<and> reqGroup r < nGroups (fSt atOpening)"
    by (simp_all add: atOpening_def evening_def)
  note p1 = provideTableOrWaitingRoom_effect [OF o(2) atOpening_facts(1), of 1]
  note p2 = receivePayment_effect [OF q(2), of 0]
  have "\<exists>p'. waitFood 0 queued1 = Inr p'"
    by (simp add: waitFood_def step_defs Let_def queued1_def)
  then have p3: "waitFood 0 queued1 = Inr (finalProc (waitFood 0 queued1))" by auto
  from table_exclusivity [OF atOpening_facts(5), where g = 0 and NT = 1] p1 o(1)
  have "tableExclusive (fSt (finalProc (provideTableOrWaitingRoom 1 0 atOpening)))"
    by simp
  moreover from table_exclusivity [OF q(1), where g = 0] p2 q(3)
  have "tableExclusive (fSt (finalProc (receivePayment 0 queued1)))" by simp
  moreover have "assignedTable (fSt (finalProc (receivePayment 0 queued1))) 1 = 0"
    by (simp add: p2) (simp add: queued1_def eval_defs)
  moreover from table_exclusivity [OF atOpening_facts(5), where NT = 1 and reqs = evening]
    evening_served o(3)
  have "tableExclusive (fSt (finalProc (receptionistServes 1 evening atOpening)))" by simp
  moreover from table_exclusivity [OF q(1), where g = 0 and p' = "finalProc (waitFood 0 queued1)"] p3
  have "tableExclusive (fSt (finalProc (waitFood 0 queued1)))" by blast
  ultimately show ?thesis by blast
qed

theorem table_exclusivity_counterexample:
  "tableExclusive (fSt atOpening)
   \<and> receptionistServes 1 (take 2 intruder) atOpening =
       Inr (finalProc (receptionistServes 1 (take 2 intruder) atOpening))
   \<and> assignedTable (fSt (finalProc (receptionistServes 1 (take 2 intruder) atOpening))) 3 = 0
   \<and> assignedTable (fSt (finalProc (receptionistServes 1 (take 2 intruder) atOpening))) 0 = 0
   \<and> receptionistServes 1 intruder atOpening =
       Inr (finalProc (receptionistServes 1 intruder atOpening))
   \<and> assignedTable (fSt (finalProc (receptionistServes 1 intruder atOpening))) 0 = 0
   \<and> assignedTable (fSt (finalProc (receptionistServes 1 intruder atOpening))) 1 = 0
   \<and> \<not> tableExclusive (fSt (finalProc (receptionistServes 1 intruder atOpening)))"
proof -
  note two = intruder_served [of 2]
  have four: "receptionistServes 1 intruder atOpening = Inr (servedAll 1 intruder atOpening)"
    using intruder_served [of 4] by (simp add: intruder_def)
  have a: "assignedTable (fSt (servedAll 1 (take 2 intruder) atOpening)) 3 = 0"
    "assignedTable (fSt (servedAll 1 (take 2 intruder) atOpening)) 0 = 0"
    by (simp_all add: intruder_def atOpening_def eval_defs)
  have b: "assignedTable (fSt (servedAll 1 intruder atOpening)) 0 = 0"
    "assignedTable (fSt (servedAll 1 intruder atOpening)) 1 = 0"
    "nGroups (fSt (servedAll 1 intruder atOpening)) = 2"
    by (simp_all add: intruder_def atOpening_def eval_defs)
  from b have "\<not> tableExclusive (fSt (servedAll 1 intruder atOpening))"
    by (simp add: tableExclusive_def upto_0_1)
  with a b show ?thesis by (simp add: two four atOpening_facts)
qed

subsection \<open>C2: the table-assignment policy\<close>

text \<open>
  Claim C2, as amended.  In every state with \<open>nGroups \<ge> 0\<close> in which the receptionist's
  record of the group is \<^verbatim>\<open>TOARRIVE\<close> or \<^verbatim>\<open>WAIT\<close> (the assertion at the entry of
  \<^verbatim>\<open>decideTableOrWait\<close>), \<^verbatim>\<open>decideTableOrWait\<close> returns a table \<open>t\<close> that is either
  \<open>-1\<close> or a free table in \<open>[0, NUMTABLES)\<close>, and that is at most every free table of
  that range: the smallest free table, and \<open>-1\<close> exactly when none is free.  When no
  semaphore operation fails, \<^verbatim>\<open>provideTableOrWaitingRoom\<close> then ends in
  \<open>tableRequestServed t\<close>: for \<open>t = -1\<close> it adds one to \<open>groupsWaiting\<close>, records the
  group as \<^verbatim>\<open>WAIT\<close> and signals nothing but the mutex; otherwise it records the group
  as \<^verbatim>\<open>ATTABLE\<close>, stores \<open>t\<close> in \<open>assignedTable\<close> and signals the group's
  \<^verbatim>\<open>waitForTable\<close> semaphore.
\<close>

theorem table_assignment_policy:
  assumes "0 \<le> nGroups (fSt p)" and "groupRecord p g < 2" and "semBudget p = None"
  shows "\<exists>t. decideTableOrWait NT g p = Inr t
           \<and> (t = -1 \<or> (0 \<le> t \<and> t < NT \<and> tableFree (fSt p) t))
           \<and> (\<forall>t'. 0 \<le> t' \<and> t' < NT \<and> tableFree (fSt p) t' \<longrightarrow> 0 \<le> t \<and> t \<le> t')
           \<and> (t = -1 \<longleftrightarrow> (\<forall>t'. 0 \<le> t' \<and> t' < NT \<longrightarrow> \<not> tableFree (fSt p) t'))
           \<and> provideTableOrWaitingRoom NT g p = Inr (tableRequestServed t g p)"
proof -
  define t where "t = firstFreeTable NT (assignedTable (fSt p)) (nGroups (fSt p)) 0"
  have d: "decideTableOrWait NT g p = Inr t"
    using assms(2) by (simp add: decideTableOrWait_def t_def)
  have r: "t = -1 \<or> (0 \<le> t \<and> t < NT \<and> tableFree (fSt p) t)"
    using firstFreeTable_result [OF assms(1) _ t_def] by simp
  have l: "\<forall>t'. 0 \<le> t' \<and> t' < NT \<and> tableFree (fSt p) t' \<longrightarrow> 0 \<le> t \<and> t \<le> t'"
  proof (intro allI impI)
    fix t' assume "0 \<le> t' \<and> t' < NT \<and> tableFree (fSt p) t'"
    then show "0 \<le> t \<and> t \<le> t'"
      using firstFreeTable_least [OF assms(1) _ t_def, of t'] by simp
  qed
  have n: "t = -1 \<longleftrightarrow> (\<forall>t'. 0 \<le> t' \<and> t' < NT \<longrightarrow> \<not> tableFree (fSt p) t')"
  proof
    assume "t = -1"
    with l show "\<forall>t'. 0 \<le> t' \<and> t' < NT \<longrightarrow> \<not> tableFree (fSt p) t'" by auto
  next
    assume "\<forall>t'. 0 \<le> t' \<and> t' < NT \<longrightarrow> \<not> tableFree (fSt p) t'"
    with r show "t = -1" by auto
  qed
  have e: "provideTableOrWaitingRoom NT g p = Inr (tableRequestServed t g p)"
    unfolding t_def using assms(2,3) by (rule provideTableOrWaitingRoom_effect)
  from d r l n e show ?thesis by blast
qed

theorem table_assignment_policy_witness:
  "decideTableOrWait 2 1 seated0 = Inr 1 \<and>
   provideTableOrWaitingRoom 2 1 seated0 = Inr (tableRequestServed 1 1 seated0)"
proof -
  have h: "0 \<le> nGroups (fSt seated0)" "groupRecord seated0 1 < 2" "semBudget seated0 = None"
    by (simp_all add: seated0_def)
  from table_assignment_policy [OF h, of 2] obtain t where
    t: "decideTableOrWait 2 1 seated0 = Inr t"
       "t = -1 \<or> (0 \<le> t \<and> t < 2 \<and> tableFree (fSt seated0) t)"
       "\<forall>t'. 0 \<le> t' \<and> t' < 2 \<and> tableFree (fSt seated0) t' \<longrightarrow> 0 \<le> t \<and> t \<le> t'"
       "provideTableOrWaitingRoom 2 1 seated0 = Inr (tableRequestServed t 1 seated0)"
    by blast
  from spec [OF t(3), of 1] seated0_free(2) have "0 \<le> t \<and> t \<le> 1" by simp
  moreover from t(2) seated0_free(1) have "t \<noteq> 0" by auto
  ultimately have "t = 1" by simp
  with t(1,4) show ?thesis by simp
qed

text \<open>
  The claim as stated, for every state, fails where the record of the group is
  \<^verbatim>\<open>ATTABLE\<close>: table 1 is free, and the assertion stops the receptionist.
\<close>

theorem table_assignment_policy_counterexample:
  "decideTableOrWait 2 0 seated0 = Inl (AssertionFailed, seated0)"
  by (simp add: decideTableOrWait_def seated0_def)

subsection \<open>C3: the payment and the reassignment of the table\<close>



subsection \<open>C4: the statuses a group persists\<close>

lemma savedStatuses_append [simp]:
  "savedStatuses g (xs @ ys) = savedStatuses g xs @ savedStatuses g ys"
  by (induction g xs rule: savedStatuses.induct) simp_all

lemma storedStatuses_append [simp]:
  "storedStatuses (xs @ ys) = storedStatuses xs @ storedStatuses ys"
  by (induction xs rule: storedStatuses.induct) simp_all

text \<open>
  Claim C4, as amended.  Over its life cycle, when no semaphore operation fails, a group
  stores six statuses in the region, each for itself and each followed by one
  \<^verbatim>\<open>saveState\<close>: \<^verbatim>\<open>ATRECEPTION\<close>, \<^verbatim>\<open>FOOD_REQUEST\<close>, \<^verbatim>\<open>WAIT_FOR_FOOD\<close>, \<^verbatim>\<open>EAT\<close>,
  \<^verbatim>\<open>CHECKOUT\<close>, \<^verbatim>\<open>LEAVING\<close>, in this order.  It stores neither the status it starts
  with nor a waiting status.
\<close>

theorem group_status_sequence:
  assumes "semBudget p = None"
  shows "\<exists>p'. groupLife g p = Inr p'
           \<and> savedStatuses g (trace p') = savedStatuses g (trace p) @
               [ATRECEPTION, FOOD_REQUEST, WAIT_FOR_FOOD, EAT, CHECKOUT, LEAVING]
           \<and> storedStatuses (trace p') = storedStatuses (trace p) @
               [(g, ATRECEPTION), (g, FOOD_REQUEST), (g, WAIT_FOR_FOOD), (g, EAT),
                (g, CHECKOUT), (g, LEAVING)]"
  using assms
  by (simp add: groupLife_def goToRestaurant_def eat_def checkInAtReception_def orderFood_def
      waitFood_def checkOutAtReception_def step_defs Let_def)

theorem group_status_sequence_witness:
  "savedStatuses 1 (trace (finalProc (groupLife 1 arriving1))) =
     [ATRECEPTION, FOOD_REQUEST, WAIT_FOR_FOOD, EAT, CHECKOUT, LEAVING]
   \<and> storedStatuses (trace (finalProc (groupLife 1 arriving1))) =
     [(1, ATRECEPTION), (1, FOOD_REQUEST), (1, WAIT_FOR_FOOD), (1, EAT), (1, CHECKOUT),
      (1, LEAVING)]"
proof -
  have "semBudget arriving1 = None" "trace arriving1 = []" by (simp_all add: arriving1_def)
  with group_status_sequence [of arriving1 1] show ?thesis
    by (auto simp add: finalProc_def)
qed

text \<open>
  The claim as stated starts the sequence with the status of a group on its way and has
  a waiting status in it when the group must queue.  Group 1 arrives when the only table
  is taken.  What it saves over its life cycle is the six statuses above.  The
  receptionist finds its table request in the mailbox and queues it (the record is
  \<^verbatim>\<open>WAIT\<close>, one group waits); the status of the group in the region is still
  \<^verbatim>\<open>ATRECEPTION\<close>, and so it is in the three snapshots saved so far, one by the group
  and two by the receptionist.
\<close>

theorem group_status_sequence_counterexample:
  "savedStatuses 1 (trace (finalProc (groupLife 1 arriving1))) =
     [ATRECEPTION, FOOD_REQUEST, WAIT_FOR_FOOD, EAT, CHECKOUT, LEAVING]
   \<and> receptionistRequest (fSt waiting1) = \<lparr>reqType = TABLEREQ, reqGroup = 1\<rparr>
   \<and> groupRecord queueing1 1 = WAIT
   \<and> groupsWaiting (fSt queueing1) = 1
   \<and> groupStat (fSt queueing1) 1 = ATRECEPTION
   \<and> savedStatuses 1 (trace queueing1) = [ATRECEPTION, ATRECEPTION, ATRECEPTION]"
proof -
  have a: "savedStatuses 1 (trace (finalProc (groupLife 1 arriving1))) =
     [ATRECEPTION, FOOD_REQUEST, WAIT_FOR_FOOD, EAT, CHECKOUT, LEAVING]"
    by (simp add: groupLife_def goToRestaurant_def eat_def checkInAtReception_def orderFood_def
      waitFood_def checkOutAtReception_def step_defs Let_def finalProc_def arriving1_def)
  have w: "waiting1 = arriving1
      \<lparr>fSt := (fSt arriving1)\<lparr>groupStat := (groupStat (fSt arriving1))(1 := ATRECEPTION),
             receptionistRequest := \<lparr>reqType = TABLEREQ, reqGroup = 1\<rparr>\<rparr>,
       trace := [SemDown ReceptionistRequestPossible, SemDown Mutex,
                 Store_groupStat 1 ATRECEPTION,
                 SaveState ((fSt arriving1)\<lparr>groupStat := (groupStat (fSt arriving1))(1 := ATRECEPTION)\<rparr>),
                 Store_receptionistRequest \<lparr>reqType = TABLEREQ, reqGroup = 1\<rparr>,
                 SemUp ReceptionistReq, SemUp Mutex, SemDown (WaitForTable 1)]\<rparr>"
    by (simp add: waiting1_def checkInAtReception_def step_defs finalProc_def arriving1_def)
  have f: "firstFreeTable 1 ((\<lambda>_. - 1)(0 := 0)) 2 0 = -1"
    by code_simp
  have q: "groupRecord queueing1 1 = WAIT \<and> groupsWaiting (fSt queueing1) = 1
      \<and> groupStat (fSt queueing1) 1 = ATRECEPTION
      \<and> savedStatuses 1 (trace queueing1) = [ATRECEPTION, ATRECEPTION, ATRECEPTION]"
    unfolding queueing1_def w
    apply (simp add: receptionistTurn_def waitForGroup_def receptionistMailboxFilled_def
       provideTableOrWaitingRoom_def decideTableOrWait_def step_defs Let_def finalProc_def f)
    apply (simp add: arriving1_def f)
    done
  have r: "receptionistRequest (fSt waiting1) = \<lparr>reqType = TABLEREQ, reqGroup = 1\<rparr>"
    by (simp add: w)
  from a r q show ?thesis by blast
qed

subsection \<open>C5: the count of waiting groups\<close>

lemma waitingRecords_card:
  "waitingRecords p = card {g. 0 \<le> g \<and> g < nGroups (fSt p) \<and> groupRecord p g = WAIT}"
proof -
  have "distinct (filter (\<lambda>g. groupRecord p g = WAIT) [0..nGroups (fSt p) - 1])" by simp
  from distinct_card [OF this]
  have "waitingRecords p = card (set (filter (\<lambda>g. groupRecord p g = WAIT) [0..nGroups (fSt p) - 1]))"
    by (simp add: waitingRecords_def)
  moreover have "set (filter (\<lambda>g. groupRecord p g = WAIT) [0..nGroups (fSt p) - 1]) =
      {g. 0 \<le> g \<and> g < nGroups (fSt p) \<and> groupRecord p g = WAIT}" by auto
  ultimately show ?thesis by simp
qed

lemma waiting_finite: "finite {g::int. 0 \<le> g \<and> g < n \<and> P g}"
proof -
  have "{g. 0 \<le> g \<and> g < n \<and> P g} \<subseteq> {0..<n}" by auto
  then show ?thesis by (rule finite_subset) simp
qed

lemma waitingRecords_cong:
  "nGroups (fSt q) = nGroups (fSt p) \<Longrightarrow>
   (\<And>g. 0 \<le> g \<Longrightarrow> g < nGroups (fSt p) \<Longrightarrow> (groupRecord q g = WAIT) = (groupRecord p g = WAIT)) \<Longrightarrow>
   waitingRecords q = waitingRecords p"
proof -
  assume a: "nGroups (fSt q) = nGroups (fSt p)"
    "\<And>g. 0 \<le> g \<Longrightarrow> g < nGroups (fSt p) \<Longrightarrow> (groupRecord q g = WAIT) = (groupRecord p g = WAIT)"
  then have "{g. 0 \<le> g \<and> g < nGroups (fSt q) \<and> groupRecord q g = WAIT} =
      {g. 0 \<le> g \<and> g < nGroups (fSt p) \<and> groupRecord p g = WAIT}" by auto
  then show ?thesis by (simp add: waitingRecords_card)
qed

lemma waitingRecords_insert:
  assumes "nGroups (fSt q) = nGroups (fSt p)" and "0 \<le> h" and "h < nGroups (fSt p)"
    and "groupRecord p h \<noteq> WAIT" and "groupRecord q = (groupRecord p)(h := WAIT)"
  shows "waitingRecords q = Suc (waitingRecords p)"
proof -
  let ?W = "{g. 0 \<le> g \<and> g < nGroups (fSt p) \<and> groupRecord p g = WAIT}"
  from assms have "{g. 0 \<le> g \<and> g < nGroups (fSt q) \<and> groupRecord q g = WAIT} = insert h ?W"
    by auto
  moreover from assms(4) have "h \<notin> ?W" by simp
  ultimately show ?thesis
    using waiting_finite [of "nGroups (fSt p)" "\<lambda>g. groupRecord p g = WAIT"]
    by (simp add: waitingRecords_card)
qed

lemma waitingRecords_remove:
  assumes "nGroups (fSt q) = nGroups (fSt p)" and "0 \<le> h" and "h < nGroups (fSt p)"
    and "groupRecord p h = WAIT" and "v \<noteq> WAIT"
    and "\<And>g. g \<noteq> h \<Longrightarrow> 0 \<le> g \<Longrightarrow> g < nGroups (fSt p) \<Longrightarrow>
           (groupRecord q g = WAIT) = (groupRecord p g = WAIT)"
    and "groupRecord q h = v"
  shows "int (waitingRecords q) = int (waitingRecords p) - 1"
proof -
  let ?W = "{g. 0 \<le> g \<and> g < nGroups (fSt p) \<and> groupRecord p g = WAIT}"
  have "x \<in> {g. 0 \<le> g \<and> g < nGroups (fSt q) \<and> groupRecord q g = WAIT} \<longleftrightarrow> x \<in> ?W - {h}"
    for x
  proof (cases "x = h")
    case True
    with assms(5,7) show ?thesis by simp
  next
    case False
    with assms(1) assms(6) [of x] show ?thesis by auto
  qed
  then have "{g. 0 \<le> g \<and> g < nGroups (fSt q) \<and> groupRecord q g = WAIT} = ?W - {h}"
    by blast
  moreover from assms(2,3,4) have h: "h \<in> ?W" by simp
  moreover have f: "finite ?W" by (rule waiting_finite)
  ultimately have "waitingRecords q = card ?W - 1"
    by (simp add: waitingRecords_card)
  moreover from h f have "0 < card ?W" by (auto simp: card_gt_0_iff)
  ultimately show ?thesis by (simp add: waitingRecords_card)
qed

lemma waitingCounted_tableRequestServed:
  assumes "waitingCounted p" and "0 \<le> g" and "g < nGroups (fSt p)"
    and "groupRecord p g \<noteq> WAIT"
  shows "waitingCounted (tableRequestServed t g p)"
proof (cases "t < 0")
  case True
  have "waitingRecords (tableRequestServed t g p) = Suc (waitingRecords p)"
    using True assms(2,3,4)
    by (intro waitingRecords_insert [of _ _ g]) (simp_all add: tableRequestServed_def Let_def)
  with assms(1) True show ?thesis
    by (simp add: waitingCounted_def) (simp add: tableRequestServed_def Let_def)
next
  case False
  have "waitingRecords (tableRequestServed t g p) = waitingRecords p"
    using False assms(4)
    by (intro waitingRecords_cong) (auto simp add: tableRequestServed_def Let_def)
  with assms(1) False show ?thesis
    by (simp add: waitingCounted_def) (simp add: tableRequestServed_def Let_def)
qed

lemma waitingCounted_paymentReceived:
  assumes "waitingCounted p" and "groupRecord p g \<noteq> WAIT" and "next = nextGroup g p"
  shows "waitingCounted (paymentReceived next g p)"
proof (cases "next")
  case None
  have "waitingRecords (paymentReceived next g p) = waitingRecords p"
    using None assms(2)
    by (intro waitingRecords_cong) (auto simp add: paymentReceived_def Let_def)
  with assms(1) None show ?thesis
    by (simp add: waitingCounted_def) (simp add: paymentReceived_def Let_def)
next
  case (Some h)
  with assms(3) nextGroup_Some [of g p h]
  have h: "0 \<le> h" "h < nGroups (fSt p)" "h \<noteq> g" "groupRecord p h = WAIT" by simp_all
  have "int (waitingRecords (paymentReceived next g p)) = int (waitingRecords p) - 1"
    using Some h assms(2)
    by (intro waitingRecords_remove [of _ _ h ATTABLE])
       (auto simp add: paymentReceived_def Let_def)
  with assms(1) Some show ?thesis
    by (simp add: waitingCounted_def) (simp add: paymentReceived_def Let_def)
qed

lemma signalledSeated_turnDone:
  assumes "signalledSeated p" and "reqType r = TABLEREQ \<longrightarrow> groupRecord p (reqGroup r) < 2"
  shows "signalledSeated (turnDone NT r p)"
proof (cases "reqType r")
  case TABLEREQ
  with assms have "groupRecord p (reqGroup r) < 2" by simp
  with assms(1) have "SemUp (WaitForTable (reqGroup r)) \<notin> set (trace p)"
    by (auto simp: signalledSeated_def)
  with assms(1) TABLEREQ show ?thesis
    by (auto simp: signalledSeated_def turnDone_def requestTaken_def tableRequestServed_def
        Let_def split: if_splits)
next
  case BILLREQ
  show ?thesis
  proof (cases "nextGroup (reqGroup r) (requestTaken r p)")
    case None
    with assms(1) BILLREQ show ?thesis
      by (auto simp: signalledSeated_def turnDone_def requestTaken_def paymentReceived_def
          Let_def split: if_splits)
  next
    case (Some h)
    with assms(1) BILLREQ show ?thesis
      by (auto simp: signalledSeated_def turnDone_def requestTaken_def paymentReceived_def
          Let_def split: if_splits)
  qed
next
  case FOODREQ
  with assms(1) show ?thesis
    by (auto simp: signalledSeated_def turnDone_def requestTaken_def Let_def)
next
  case FOODREADY
  with assms(1) show ?thesis
    by (auto simp: signalledSeated_def turnDone_def requestTaken_def Let_def)
qed

lemma waitingCounted_requestTaken: "waitingCounted (requestTaken r p) = waitingCounted p"
  by (simp add: waitingCounted_def waitingRecords_def requestTaken_def Let_def)

lemma waitingCounted_turnDone:
  assumes "waitingCounted p" and "0 \<le> reqGroup r" and "reqGroup r < nGroups (fSt p)"
    and "reqType r = TABLEREQ \<longrightarrow> groupRecord p (reqGroup r) = TOARRIVE"
    and "reqType r = BILLREQ \<longrightarrow> groupRecord p (reqGroup r) \<noteq> WAIT"
  shows "waitingCounted (turnDone NT r p)"
proof -
  let ?p1 = "requestTaken r p"
  have p1: "waitingCounted ?p1" "nGroups (fSt ?p1) = nGroups (fSt p)"
    "groupRecord ?p1 = groupRecord p"
    using assms(1) by (simp_all add: waitingCounted_requestTaken) (simp_all add: requestTaken_def Let_def)
  show ?thesis
  proof (cases "reqType r")
    case TABLEREQ
    with waitingCounted_tableRequestServed [OF p1(1), of "reqGroup r"] assms p1
    show ?thesis by (simp add: turnDone_def Let_def)
  next
    case BILLREQ
    with waitingCounted_paymentReceived [OF p1(1), of "reqGroup r"] assms p1
    show ?thesis by (simp add: turnDone_def Let_def)
  next
    case FOODREQ
    with p1 show ?thesis by (simp add: turnDone_def Let_def)
  next
    case FOODREADY
    with p1 show ?thesis by (simp add: turnDone_def Let_def)
  qed
qed

lemma sameBut_invariants:
  "sameBut p q \<Longrightarrow> waitingCounted p = waitingCounted q \<and> signalledSeated p = signalledSeated q"
  by (simp add: sameBut_def waitingCounted_def waitingRecords_def signalledSeated_def)

lemma waitingCounted_turn:
  assumes "unseenToArrive seen p" and "signalledSeated p" and "waitingCounted p"
    and "0 \<le> reqGroup r" and "reqGroup r < nGroups (fSt p)"
    and "reqType r = TABLEREQ \<longrightarrow> reqGroup r \<notin> set seen"
    and "reqType r = BILLREQ \<longrightarrow> SemUp (WaitForTable (reqGroup r)) \<in> set (trace p)"
    and "receptionistTurn NT r p = Inr p'"
  shows "signalledSeated p' \<and> waitingCounted p'"
proof -
  from receptionistTurn_any [OF assms(8)]
  have s: "sameBut p' (turnDone NT r p)"
    and a: "reqType r = TABLEREQ \<longrightarrow> groupRecord p (reqGroup r) < 2" by simp_all
  have t: "reqType r = TABLEREQ \<longrightarrow> groupRecord p (reqGroup r) = TOARRIVE"
    using assms(1,4,5,6) by (simp add: unseenToArrive_def)
  have b: "reqType r = BILLREQ \<longrightarrow> groupRecord p (reqGroup r) \<noteq> WAIT"
    using assms(2,7) by (auto simp: signalledSeated_def)
  from signalledSeated_turnDone [OF assms(2) a, of NT]
    waitingCounted_turnDone [OF assms(3,4,5) t b, of NT] sameBut_invariants [OF s]
  show ?thesis by simp
qed

lemma waitingCounted_serves:
  "unseenToArrive seen p \<Longrightarrow> signalledSeated p \<Longrightarrow> waitingCounted p \<Longrightarrow>
   conforming NT seen reqs p \<Longrightarrow> receptionistServes NT reqs p = Inr p' \<Longrightarrow>
   waitingCounted p'"
proof (induction reqs arbitrary: p seen)
  case Nil
  then show ?case by simp
next
  case (Cons r reqs)
  from Cons.prems(5) obtain p1 where t: "receptionistTurn NT r p = Inr p1"
    and s: "receptionistServes NT reqs p1 = Inr p'" by (auto split: sum.splits)
  from Cons.prems(4) t have g: "0 \<le> reqGroup r" "reqGroup r < nGroups (fSt p)"
    and l1: "reqType r = TABLEREQ \<longrightarrow> reqGroup r \<notin> set seen"
    and l2: "reqType r = BILLREQ \<longrightarrow> SemUp (WaitForTable (reqGroup r)) \<in> set (trace p)"
    and rest: "conforming NT (reqGroup r # seen) reqs p1"
    by (auto split: req_type.splits)
  from waitingCounted_turn [OF Cons.prems(1,2,3) g l1 l2 t]
    unseenToArrive_turn [OF Cons.prems(1) t]
  have "unseenToArrive (reqGroup r # seen) p1" "signalledSeated p1" "waitingCounted p1"
    by simp_all
  from Cons.IH [OF this rest s] show ?case .
qed

lemma waitingCounted_provide:
  assumes "waitingCounted p" and "0 \<le> g" and "g < nGroups (fSt p)"
    and "groupRecord p g \<noteq> WAIT" and "provideTableOrWaitingRoom NT g p = Inr p'"
  shows "waitingCounted p'"
  using provideTableOrWaitingRoom_any [OF assms(5)]
    waitingCounted_tableRequestServed [OF assms(1,2,3,4)] sameBut_invariants
  by blast

lemma waitingCounted_payment:
  assumes "waitingCounted p" and "groupRecord p g \<noteq> WAIT" and "receivePayment g p = Inr p'"
  shows "waitingCounted p'"
  using receivePayment_any [OF assms(3)]
    waitingCounted_paymentReceived [OF assms(1,2) refl] sameBut_invariants
  by blast

lemma waitingCounted_init:
  assumes "groupsWaiting (fSt p) = 0"
  shows "waitingCounted (initGroupRecord 0 p)"
proof -
  have "{g. 0 \<le> g \<and> g < nGroups (fSt (initGroupRecord 0 p)) \<and>
          groupRecord (initGroupRecord 0 p) g = WAIT} = {}"
    using initGroupRecord_effect [of 0 p] by auto
  then have "waitingRecords (initGroupRecord 0 p) = 0"
    by (simp only: waitingRecords_card card.empty)
  moreover have "groupsWaiting (fSt (initGroupRecord 0 p)) = groupsWaiting (fSt p)"
    using initGroupRecord_effect [of 0 p] by simp
  ultimately show ?thesis using assms by (simp add: waitingCounted_def)
qed

lemma provideTableOrWaitingRoom_counts:
  assumes "provideTableOrWaitingRoom NT g p = Inr p'"
  shows "(groupsWaiting (fSt p') = groupsWaiting (fSt p) + 1 \<and> groupRecord p' g = WAIT) \<or>
         (groupsWaiting (fSt p') = groupsWaiting (fSt p) \<and> groupRecord p' g = ATTABLE)"
  using provideTableOrWaitingRoom_any [OF assms]
  by (auto simp: sameBut_def tableRequestServed_def Let_def)

lemma receivePayment_counts:
  assumes "receivePayment g p = Inr p'"
  shows "(\<exists>h. h \<noteq> g \<and> groupRecord p h = WAIT \<and> groupRecord p' h = ATTABLE \<and>
              groupsWaiting (fSt p') = groupsWaiting (fSt p) - 1) \<or>
         (groupsWaiting (fSt p') = groupsWaiting (fSt p) \<and>
              (\<forall>h. h \<noteq> g \<longrightarrow> groupRecord p' h = groupRecord p h))"
proof (cases "nextGroup g p")
  case None
  with receivePayment_any [OF assms] show ?thesis
    by (auto simp: sameBut_def paymentReceived_def Let_def)
next
  case (Some h)
  from nextGroup_Some [OF Some] have "h \<noteq> g" "groupRecord p h = WAIT" by simp_all
  moreover from receivePayment_any [OF assms] Some
  have "groupRecord p' h = ATTABLE" "groupsWaiting (fSt p') = groupsWaiting (fSt p) - 1"
    by (auto simp: sameBut_def paymentReceived_def Let_def)
  ultimately show ?thesis by blast
qed

text \<open>
  Claim C5, as amended.  \<open>groupsWaiting\<close> is the number of groups in \<open>[0, nGroups)\<close>
  recorded as \<^verbatim>\<open>WAIT\<close> after every turn of the receptionist, when it starts with
  \<open>groupsWaiting = 0\<close> and the requests follow the protocol: they come from groups in
  \<open>[0, nGroups)\<close>, a table request is the first request of its group, and a bill request
  comes from a group whose \<^verbatim>\<open>waitForTable\<close> semaphore has been signalled.
  Each operation keeps the equality when the group it serves is not recorded as \<^verbatim>\<open>WAIT\<close>:
  \<^verbatim>\<open>provideTableOrWaitingRoom\<close> for such a group in \<open>[0, nGroups)\<close> (it adds one to the
  count exactly when it records \<^verbatim>\<open>WAIT\<close>, see C2), \<^verbatim>\<open>receivePayment\<close> for any such group
  (it takes one from the count exactly when it moves a waiting group to the table, see
  C3), and the operations of the waiter and of the groups, which touch neither the count
  nor the records.

  For a group that is recorded as \<^verbatim>\<open>WAIT\<close> neither operation keeps the equality, and
  the assertion of \<^verbatim>\<open>decideTableOrWait\<close> lets such a group through, as its comment says
  ("if they are arriving or waiting").  With one table, taken by group 0, and group 1
  waiting: a second table request of group 1 makes the count 2 with one group recorded
  as \<^verbatim>\<open>WAIT\<close>, and a bill request of group 1 leaves the count at 1 with none.  The last two
  parts of the theorem are the two "exactly when": whenever
  \<^verbatim>\<open>provideTableOrWaitingRoom\<close> returns, either the count is one more and the group is
  recorded as \<^verbatim>\<open>WAIT\<close>, or the count is the same and the group is recorded as
  \<^verbatim>\<open>ATTABLE\<close>; whenever \<^verbatim>\<open>receivePayment\<close> returns, either the count is one less and
  one record has gone from \<^verbatim>\<open>WAIT\<close> to \<^verbatim>\<open>ATTABLE\<close>, or the count is the same and no
  record but the paying group's has changed.
\<close>

theorem waiting_count_invariant:
  "(waitingCounted p \<and> 0 \<le> g \<and> g < nGroups (fSt p) \<and> groupRecord p g \<noteq> WAIT \<and>
      provideTableOrWaitingRoom NT g p = Inr p' \<longrightarrow> waitingCounted p')
   \<and> (waitingCounted p \<and> groupRecord p g \<noteq> WAIT \<and> receivePayment g p = Inr p'
      \<longrightarrow> waitingCounted p')
   \<and> (waitingCounted p \<and>
      (waiterTurn r p = Inr p' \<or> checkInAtReception g p = Inr p' \<or> orderFood g p = Inr p' \<or>
       waitFood g p = Inr p' \<or> checkOutAtReception g p = Inr p')
      \<longrightarrow> waitingCounted p')
   \<and> (groupsWaiting (fSt p) = 0 \<and> (\<forall>g. SemUp (WaitForTable g) \<notin> set (trace p)) \<and>
      conforming NT [] reqs (initGroupRecord 0 p) \<and>
      receptionistServes NT reqs (initGroupRecord 0 p) = Inr p'
      \<longrightarrow> groupsWaiting (fSt p') = int (waitingRecords p'))
   \<and> (provideTableOrWaitingRoom NT g p = Inr p'
      \<longrightarrow> (groupsWaiting (fSt p') = groupsWaiting (fSt p) + 1 \<and> groupRecord p' g = WAIT) \<or>
          (groupsWaiting (fSt p') = groupsWaiting (fSt p) \<and> groupRecord p' g = ATTABLE))
   \<and> (receivePayment g p = Inr p'
      \<longrightarrow> (\<exists>h. h \<noteq> g \<and> groupRecord p h = WAIT \<and> groupRecord p' h = ATTABLE \<and>
                groupsWaiting (fSt p') = groupsWaiting (fSt p) - 1) \<or>
          (groupsWaiting (fSt p') = groupsWaiting (fSt p) \<and>
             (\<forall>h. h \<noteq> g \<longrightarrow> groupRecord p' h = groupRecord p h)))"
proof (intro conjI impI)
  assume "waitingCounted p \<and> 0 \<le> g \<and> g < nGroups (fSt p) \<and> groupRecord p g \<noteq> WAIT \<and>
      provideTableOrWaitingRoom NT g p = Inr p'"
  then show "waitingCounted p'" using waitingCounted_provide by blast
next
  assume "waitingCounted p \<and> groupRecord p g \<noteq> WAIT \<and> receivePayment g p = Inr p'"
  then show "waitingCounted p'" using waitingCounted_payment by blast
next
  assume "waitingCounted p \<and>
      (waiterTurn r p = Inr p' \<or> checkInAtReception g p = Inr p' \<or> orderFood g p = Inr p' \<or>
       waitFood g p = Inr p' \<or> checkOutAtReception g p = Inr p')"
  then show "waitingCounted p'"
    using others_owned [of r p p' g] receptionistOwned_invariants [of p p'] by blast
next
  assume a: "groupsWaiting (fSt p) = 0 \<and> (\<forall>g. SemUp (WaitForTable g) \<notin> set (trace p)) \<and>
      conforming NT [] reqs (initGroupRecord 0 p) \<and>
      receptionistServes NT reqs (initGroupRecord 0 p) = Inr p'"
  have i: "unseenToArrive [] (initGroupRecord 0 p)"
    using initGroupRecord_effect [of 0 p] by (simp add: unseenToArrive_def)
  have s: "signalledSeated (initGroupRecord 0 p)"
    using a initGroupRecord_effect [of 0 p] by (simp add: signalledSeated_def)
  from a have w: "waitingCounted (initGroupRecord 0 p)" by (simp add: waitingCounted_init)
  from waitingCounted_serves [OF i s w] a have "waitingCounted p'" by blast
  then show "groupsWaiting (fSt p') = int (waitingRecords p')" by (simp add: waitingCounted_def)
next
  assume "provideTableOrWaitingRoom NT g p = Inr p'"
  then show "(groupsWaiting (fSt p') = groupsWaiting (fSt p) + 1 \<and> groupRecord p' g = WAIT) \<or>
          (groupsWaiting (fSt p') = groupsWaiting (fSt p) \<and> groupRecord p' g = ATTABLE)"
    by (rule provideTableOrWaitingRoom_counts)
next
  assume "receivePayment g p = Inr p'"
  then show "(\<exists>h. h \<noteq> g \<and> groupRecord p h = WAIT \<and> groupRecord p' h = ATTABLE \<and>
                groupsWaiting (fSt p') = groupsWaiting (fSt p) - 1) \<or>
          (groupsWaiting (fSt p') = groupsWaiting (fSt p) \<and>
             (\<forall>h. h \<noteq> g \<longrightarrow> groupRecord p' h = groupRecord p h))"
    by (rule receivePayment_counts)
qed

theorem waiting_count_invariant_witness:
  "waitingCounted (finalProc (provideTableOrWaitingRoom 1 1 seated0))
   \<and> groupsWaiting (fSt (finalProc (provideTableOrWaitingRoom 1 1 seated0))) = 1
   \<and> waitingCounted (finalProc (receivePayment 0 queued1))
   \<and> groupsWaiting (fSt (finalProc (receivePayment 0 queued1))) = 0
   \<and> waitingCounted (finalProc (waitFood 0 queued1))
   \<and> groupsWaiting (fSt (finalProc (receptionistServes 1 (take 2 evening) (initGroupRecord 0 atOpening))))
       = int (waitingRecords (finalProc (receptionistServes 1 (take 2 evening) (initGroupRecord 0 atOpening))))
   \<and> groupsWaiting (fSt (finalProc (receptionistServes 1 (take 2 evening) (initGroupRecord 0 atOpening))))
       = 1"
proof -
  have s: "waitingCounted seated0" "semBudget seated0 = None" "groupRecord seated0 1 < 2"
    "(0::int) \<le> 1 \<and> 1 < nGroups (fSt seated0) \<and> groupRecord seated0 1 \<noteq> WAIT"
    by (simp_all add: seated0_def waitingCounted_def waitingRecords_def upto_0_1)
  have q: "waitingCounted queued1" "semBudget queued1 = None" "groupRecord queued1 0 \<noteq> WAIT"
    by (simp_all add: queued1_def waitingCounted_def waitingRecords_def upto_0_1)
  note p1 = provideTableOrWaitingRoom_effect [OF s(3) s(2), of 1]
  note p2 = receivePayment_effect [OF q(2), of 0]
  have "\<exists>p'. waitFood 0 queued1 = Inr p'"
    by (simp add: waitFood_def step_defs Let_def queued1_def)
  then have p3: "waitFood 0 queued1 = Inr (finalProc (waitFood 0 queued1))" by auto
  have c: "conforming 1 [] (take 2 evening) (initGroupRecord 0 atOpening)"
    by (simp add: atOpening_init)
       (simp add: evening_def receptionistTurn_effect turnDone_semBudget atOpening_def eval_defs)
  have t: "\<forall>g. SemUp (WaitForTable g) \<notin> set (trace atOpening)"
    by (simp add: atOpening_facts)
  note run = evening_prefix_served [of 2]
  from waiting_count_invariant [where p = seated0 and g = 1 and NT = 1] p1 s
  have "waitingCounted (finalProc (provideTableOrWaitingRoom 1 1 seated0))" by simp
  moreover have "groupsWaiting (fSt (finalProc (provideTableOrWaitingRoom 1 1 seated0))) = 1"
    by (simp add: p1) (simp add: seated0_def eval_defs)
  moreover from waiting_count_invariant [where p = queued1 and g = 0] p2 q
  have "waitingCounted (finalProc (receivePayment 0 queued1))" by simp
  moreover have "groupsWaiting (fSt (finalProc (receivePayment 0 queued1))) = 0"
    by (simp add: p2) (simp add: queued1_def eval_defs)
  moreover from waiting_count_invariant
    [where p = queued1 and g = 0 and p' = "finalProc (waitFood 0 queued1)"] p3 q(1)
  have "waitingCounted (finalProc (waitFood 0 queued1))" by blast
  moreover from waiting_count_invariant [where p = atOpening and NT = 1 and reqs = "take 2 evening"]
    c t run
  have "groupsWaiting (fSt (finalProc (receptionistServes 1 (take 2 evening) (initGroupRecord 0 atOpening))))
       = int (waitingRecords (finalProc (receptionistServes 1 (take 2 evening) (initGroupRecord 0 atOpening))))"
    by (simp add: atOpening_init atOpening_facts)
  moreover have "groupsWaiting (fSt (finalProc (receptionistServes 1 (take 2 evening) (initGroupRecord 0 atOpening)))) = 1"
    using evening_two by (simp add: atOpening_init run)
  ultimately show ?thesis by blast
qed

theorem waiting_count_invariant_counterexample:
  "waitingCounted queued1
   \<and> groupRecord queued1 1 < 2
   \<and> provideTableOrWaitingRoom 1 1 queued1 =
       Inr (finalProc (provideTableOrWaitingRoom 1 1 queued1))
   \<and> groupsWaiting (fSt (finalProc (provideTableOrWaitingRoom 1 1 queued1))) = 2
   \<and> waitingRecords (finalProc (provideTableOrWaitingRoom 1 1 queued1)) = 1
   \<and> \<not> waitingCounted (finalProc (provideTableOrWaitingRoom 1 1 queued1))
   \<and> receivePayment 1 queued1 = Inr (finalProc (receivePayment 1 queued1))
   \<and> groupsWaiting (fSt (finalProc (receivePayment 1 queued1))) = 1
   \<and> waitingRecords (finalProc (receivePayment 1 queued1)) = 0
   \<and> \<not> waitingCounted (finalProc (receivePayment 1 queued1))"
proof -
  have q: "waitingCounted queued1" "semBudget queued1 = None" "groupRecord queued1 1 < 2"
    by (simp_all add: queued1_def waitingCounted_def waitingRecords_def upto_0_1)
  note p1 = provideTableOrWaitingRoom_effect [OF q(3) q(2), of 1]
  note p2 = receivePayment_effect [OF q(2), of 1]
  have a: "groupsWaiting (fSt (finalProc (provideTableOrWaitingRoom 1 1 queued1))) = 2"
    "waitingRecords (finalProc (provideTableOrWaitingRoom 1 1 queued1)) = 1"
    by (simp_all add: p1) (simp_all add: queued1_def eval_defs waitingRecords_def upto_0_1)
  have b: "groupsWaiting (fSt (finalProc (receivePayment 1 queued1))) = 1"
    "waitingRecords (finalProc (receivePayment 1 queued1)) = 0"
    by (simp_all add: p2) (simp_all add: queued1_def eval_defs waitingRecords_def upto_0_1)
  from a b q show ?thesis by (simp add: waitingCounted_def p1 p2)
qed

subsection \<open>C6: the loops serve twice as many requests as there are groups\<close>









subsection \<open>C7: the steps of \<^verbatim>\<open>takeFoodToTable\<close>\<close>

text \<open>
  Claim C7, as amended.  For group \<open>g\<close> the waiter takes the mutex, stores
  \<^verbatim>\<open>TAKE_TO_TABLE\<close> as its status, saves the state, signals \<^verbatim>\<open>foodArrived\<close> of the
  table assigned to \<open>g\<close>, and releases the mutex: the signal comes before the release,
  inside the critical region.  The events of every run, also of one that a failing
  semaphore operation ends, are a prefix of this list; a run without a failure performs
  all of them and stores nothing but the status.
\<close>

theorem takeFoodToTable_steps:
  "prefix (trace (finalProc (takeFoodToTable g p)))
     (trace p @
        [SemDown Mutex, Store_waiterStat TAKE_TO_TABLE,
         SaveState ((fSt p)\<lparr>waiterStat := TAKE_TO_TABLE\<rparr>),
         SemUp (FoodArrived (assignedTable (fSt p) g)), SemUp Mutex])
   \<and> (semBudget p = None \<longrightarrow>
        takeFoodToTable g p =
          Inr (p\<lparr>fSt := (fSt p)\<lparr>waiterStat := TAKE_TO_TABLE\<rparr>,
                 trace := trace p @
                   [SemDown Mutex, Store_waiterStat TAKE_TO_TABLE,
                    SaveState ((fSt p)\<lparr>waiterStat := TAKE_TO_TABLE\<rparr>),
                    SemUp (FoodArrived (assignedTable (fSt p) g)), SemUp Mutex]\<rparr>))"
  by (simp add: takeFoodToTable_def step_defs Let_def finalProc_def)

theorem takeFoodToTable_steps_witness:
  "trace (finalProc (takeFoodToTable 0 seated0)) =
     [SemDown Mutex, Store_waiterStat TAKE_TO_TABLE,
      SaveState ((fSt seated0)\<lparr>waiterStat := TAKE_TO_TABLE\<rparr>),
      SemUp (FoodArrived 0), SemUp Mutex]"
proof -
  have "semBudget seated0 = None" by (simp add: seated0_def)
  with takeFoodToTable_steps [of 0 seated0] show ?thesis
    by (simp add: finalProc_def) (simp add: seated0_def)
qed

text \<open>
  The claim as stated has the signal after the release.  With group 0 at table 0, no
  release of the mutex precedes the signal on \<^verbatim>\<open>foodArrived[0]\<close>; the signal precedes
  the release.
\<close>

theorem takeFoodToTable_steps_counterexample:
  "\<not> precedes ((=) (SemUp Mutex)) ((=) (SemUp (FoodArrived 0)))
       (trace (finalProc (takeFoodToTable 0 seated0)))
   \<and> precedes ((=) (SemUp (FoodArrived 0))) ((=) (SemUp Mutex))
       (trace (finalProc (takeFoodToTable 0 seated0)))"
  by (simp add: takeFoodToTable_def step_defs Let_def finalProc_def seated0_def)

subsection \<open>C8: the steps of \<^verbatim>\<open>orderFood\<close>\<close>

text \<open>
  Claim C8, as amended.  The group takes the waiter's permit and the mutex, stores
  \<open>{FOODREQ, g}\<close> in the waiter's mailbox, signals \<^verbatim>\<open>waiterRequest\<close> (request
  posted), and only then stores \<^verbatim>\<open>FOOD_REQUEST\<close> as its status and saves the state; it
  reads its table, releases the mutex and waits on \<^verbatim>\<open>requestReceived\<close> of that table.
  The events of every run are a prefix of this list; a run without a failing semaphore
  operation performs all of them.
\<close>

theorem orderFood_steps:
  "prefix (trace (finalProc (orderFood g p)))
     (trace p @
        [SemDown WaiterRequestPossible, SemDown Mutex,
         Store_waiterRequest \<lparr>reqType = FOODREQ, reqGroup = g\<rparr>,
         SemUp WaiterRequest, Store_groupStat g FOOD_REQUEST,
         SaveState ((fSt p)\<lparr>waiterRequest := \<lparr>reqType = FOODREQ, reqGroup = g\<rparr>,
                            groupStat := (groupStat (fSt p))(g := FOOD_REQUEST)\<rparr>),
         SemUp Mutex, SemDown (RequestReceived (assignedTable (fSt p) g))])
   \<and> (semBudget p = None \<longrightarrow>
        orderFood g p =
          Inr (p\<lparr>fSt := (fSt p)\<lparr>waiterRequest := \<lparr>reqType = FOODREQ, reqGroup = g\<rparr>,
                               groupStat := (groupStat (fSt p))(g := FOOD_REQUEST)\<rparr>,
                 trace := trace p @
                   [SemDown WaiterRequestPossible, SemDown Mutex,
                    Store_waiterRequest \<lparr>reqType = FOODREQ, reqGroup = g\<rparr>,
                    SemUp WaiterRequest, Store_groupStat g FOOD_REQUEST,
                    SaveState ((fSt p)\<lparr>waiterRequest := \<lparr>reqType = FOODREQ, reqGroup = g\<rparr>,
                                       groupStat := (groupStat (fSt p))(g := FOOD_REQUEST)\<rparr>),
                    SemUp Mutex, SemDown (RequestReceived (assignedTable (fSt p) g))]\<rparr>))"
  by (simp add: orderFood_def step_defs Let_def finalProc_def)

theorem orderFood_steps_witness:
  "orderFood 0 seated0 =
     Inr (seated0
       \<lparr>fSt := (fSt seated0)\<lparr>waiterRequest := \<lparr>reqType = FOODREQ, reqGroup = 0\<rparr>,
                              groupStat := (groupStat (fSt seated0))(0 := FOOD_REQUEST)\<rparr>,
        trace :=
          [SemDown WaiterRequestPossible, SemDown Mutex,
           Store_waiterRequest \<lparr>reqType = FOODREQ, reqGroup = 0\<rparr>,
           SemUp WaiterRequest, Store_groupStat 0 FOOD_REQUEST,
           SaveState ((fSt seated0)\<lparr>waiterRequest := \<lparr>reqType = FOODREQ, reqGroup = 0\<rparr>,
                                    groupStat := (groupStat (fSt seated0))(0 := FOOD_REQUEST)\<rparr>),
           SemUp Mutex, SemDown (RequestReceived 0)]\<rparr>)"
proof -
  have "semBudget seated0 = None" "trace seated0 = []" "assignedTable (fSt seated0) 0 = 0"
    by (simp_all add: seated0_def)
  with orderFood_steps [of 0 seated0] show ?thesis by simp
qed

text \<open>
  The claim as stated has the status stored and saved first.  In the run of group 0 the
  store of the status does not precede the store into the mailbox, no \<^verbatim>\<open>saveState\<close>
  precedes the signal, and the signal precedes the store of the status.
\<close>

theorem orderFood_steps_counterexample:
  "\<not> precedes ((=) (Store_groupStat 0 FOOD_REQUEST))
        ((=) (Store_waiterRequest \<lparr>reqType = FOODREQ, reqGroup = 0\<rparr>))
        (trace (finalProc (orderFood 0 seated0)))
   \<and> \<not> precedes isSaveState ((=) (SemUp WaiterRequest)) (trace (finalProc (orderFood 0 seated0)))
   \<and> precedes ((=) (SemUp WaiterRequest)) ((=) (Store_groupStat 0 FOOD_REQUEST))
        (trace (finalProc (orderFood 0 seated0)))"
  by (simp add: orderFood_def step_defs Let_def finalProc_def seated0_def)

subsection \<open>C9: the group id on the command line\<close>

text \<open>
  Claim C9, as amended.  \<^verbatim>\<open>main\<close> of the group returns \<^verbatim>\<open>EXIT_FAILURE\<close> at once,
  with no access to the region and no semaphore operation (the process is as it was),
  when the number of parameters is wrong, when the group id is not a number to its end,
  or when the id, converted to \<^verbatim>\<open>unsigned int\<close> and stored in an \<^verbatim>\<open>int\<close>, is at least
  \<^verbatim>\<open>MAXGROUPS\<close>.
\<close>

theorem group_id_rejection:
  "argc args \<noteq> 5 \<or> idRest args \<noteq> [] \<or> MAXGROUPS \<le> sint (word_of_int (idValue args) :: 32 word) \<Longrightarrow>
   groupMain MAXGROUPS args conn p =
     Inl (if argc args \<noteq> 5 then WrongParameterCount else WrongGroupId, p)"
  by (auto simp: groupMain_def Let_def)

theorem group_id_rejection_witness:
  "groupMain 4 \<lparr>argc = 5, idValue = 4, idRest = [], keyValue = 0, keyRest = []\<rparr>
      \<lparr>semConnect = 0, shmemConnect = 0, shmemAttach = 0, shmemDettach = 0\<rparr> arriving1
    = Inl (WrongGroupId, arriving1)"
proof -
  have "sint (word_of_int 4 :: 32 word) = 4" by simp
  then show ?thesis
    using group_id_rejection [of "\<lparr>argc = 5, idValue = 4, idRest = [], keyValue = 0, keyRest = []\<rparr>" 4
      "\<lparr>semConnect = 0, shmemConnect = 0, shmemAttach = 0, shmemDettach = 0\<rparr>" arriving1]
    by simp
qed

text \<open>
  The claim as stated rejects every id outside \<open>[0, nGroups)\<close>.  The check is against
  \<^verbatim>\<open>MAXGROUPS\<close>, before the region is attached: with two groups and \<^verbatim>\<open>MAXGROUPS = 4\<close>
  the id 3 is accepted, and the process runs the whole life cycle of a group 3.
\<close>

theorem group_id_rejection_counterexample:
  "nGroups (fSt arriving1) = 2
   \<and> groupMain 4 \<lparr>argc = 5, idValue = 3, idRest = [], keyValue = 0, keyRest = []\<rparr>
      \<lparr>semConnect = 0, shmemConnect = 0, shmemAttach = 0, shmemDettach = 0\<rparr> arriving1
     = groupLife 3 arriving1
   \<and> storedStatuses (trace (finalProc (groupLife 3 arriving1))) =
       [(3, ATRECEPTION), (3, FOOD_REQUEST), (3, WAIT_FOR_FOOD), (3, EAT), (3, CHECKOUT), (3, LEAVING)]
   \<and> take 2 (trace (finalProc (groupLife 3 arriving1))) =
       [SemDown ReceptionistRequestPossible, SemDown Mutex]"
proof -
  have s: "sint (word_of_int 3 :: 32 word) = 3" by simp
  have l: "\<exists>p'. groupLife 3 arriving1 = Inr p' \<and> storedStatuses (trace p') =
       [(3, ATRECEPTION), (3, FOOD_REQUEST), (3, WAIT_FOR_FOOD), (3, EAT), (3, CHECKOUT), (3, LEAVING)]
       \<and> take 2 (trace p') = [SemDown ReceptionistRequestPossible, SemDown Mutex]"
    by (simp add: groupLife_def goToRestaurant_def eat_def checkInAtReception_def orderFood_def
      waitFood_def checkOutAtReception_def step_defs Let_def arriving1_def)
  then obtain p' where p': "groupLife 3 arriving1 = Inr p'" and
     r: "storedStatuses (trace p') =
       [(3, ATRECEPTION), (3, FOOD_REQUEST), (3, WAIT_FOR_FOOD), (3, EAT), (3, CHECKOUT), (3, LEAVING)]"
       "take 2 (trace p') = [SemDown ReceptionistRequestPossible, SemDown Mutex]" by blast
  have "groupMain 4 \<lparr>argc = 5, idValue = 3, idRest = [], keyValue = 0, keyRest = []\<rparr>
      \<lparr>semConnect = 0, shmemConnect = 0, shmemAttach = 0, shmemDettach = 0\<rparr> arriving1
     = groupLife 3 arriving1"
    using s p' by (simp add: groupMain_def Let_def)
  moreover have "nGroups (fSt arriving1) = 2" by (simp add: arriving1_def)
  ultimately show ?thesis using p' r by (simp add: finalProc_def)
qed

subsection \<open>C10: the assertion of \<^verbatim>\<open>decideTableOrWait\<close>\<close>

lemma serves_no_assertion_failure:
  "unseenToArrive seen p \<Longrightarrow> followsProtocol (nGroups (fSt p)) seen reqs \<Longrightarrow>
   receptionistServes NT reqs p \<noteq> Inl (AssertionFailed, q)"
proof (induction reqs arbitrary: p seen)
  case Nil
  then show ?case by simp
next
  case (Cons r reqs)
  from Cons.prems(2) have g: "0 \<le> reqGroup r" "reqGroup r < nGroups (fSt p)"
    and t: "reqType r = TABLEREQ \<longrightarrow> reqGroup r \<notin> set seen"
    and rest: "followsProtocol (nGroups (fSt p)) (reqGroup r # seen) reqs" by simp_all
  show ?case
  proof (cases "receptionistTurn NT r p")
    case (Inl a)
    obtain e q' where a: "a = (e, q')" by (cases a)
    from receptionistTurn_Inl [of NT r p e q'] Inl a t g Cons.prems(1)
    have "e = SemaphoreError" by (auto simp: unseenToArrive_def)
    with Inl a show ?thesis by simp
  next
    case (Inr p')
    from unseenToArrive_turn [OF Cons.prems(1) Inr]
    have "unseenToArrive (reqGroup r # seen) p'" "nGroups (fSt p') = nGroups (fSt p)"
      by simp_all
    with Cons.IH [of "reqGroup r # seen" p'] rest Inr show ?thesis by simp
  qed
qed

lemma serves_table_request_record:
  "unseenToArrive seen p \<Longrightarrow> followsProtocol (nGroups (fSt p)) seen (rs @ r # rest) \<Longrightarrow>
   reqType r = TABLEREQ \<Longrightarrow> receptionistServes NT rs p = Inr p1 \<Longrightarrow>
   groupRecord p1 (reqGroup r) = TOARRIVE"
proof (induction rs arbitrary: p seen)
  case Nil
  then show ?case by (simp add: unseenToArrive_def)
next
  case (Cons r0 rs)
  from Cons.prems(2)
  have rest: "followsProtocol (nGroups (fSt p)) (reqGroup r0 # seen) (rs @ r # rest)" by simp
  from Cons.prems(4) obtain p' where t: "receptionistTurn NT r0 p = Inr p'"
    and s: "receptionistServes NT rs p' = Inr p1" by (auto split: sum.splits)
  from unseenToArrive_turn [OF Cons.prems(1) t]
  have "unseenToArrive (reqGroup r0 # seen) p'" "nGroups (fSt p') = nGroups (fSt p)"
    by simp_all
  with Cons.IH [of "reqGroup r0 # seen" p'] rest Cons.prems(3) s show ?case by simp
qed

text \<open>
  Claim C10.  Let the requests follow the protocol: each comes from a group in
  \<open>[0, nGroups)\<close>, and a table request is the first request of its group.  Then, from
  the records as the first loop of \<^verbatim>\<open>main\<close> leaves them, no run of the receptionist
  over these requests ends in a failed assertion; and whenever the receptionist has served
  the requests before a table request, its record of the group of that request is
  \<^verbatim>\<open>TOARRIVE\<close>, which is less than 2.
\<close>

theorem assertion_never_fails:
  assumes "followsProtocol (nGroups (fSt p)) [] reqs"
  shows "(\<forall>q. receptionistServes NT reqs (initGroupRecord 0 p) \<noteq> Inl (AssertionFailed, q))
       \<and> (\<forall>rs r rest p1. reqs = rs @ r # rest \<and> reqType r = TABLEREQ \<and>
              receptionistServes NT rs (initGroupRecord 0 p) = Inr p1
            \<longrightarrow> groupRecord p1 (reqGroup r) = TOARRIVE)"
proof -
  have i: "unseenToArrive [] (initGroupRecord 0 p)"
    and n: "nGroups (fSt (initGroupRecord 0 p)) = nGroups (fSt p)"
    using initGroupRecord_effect [of 0 p] by (simp_all add: unseenToArrive_def)
  from assms n have f: "followsProtocol (nGroups (fSt (initGroupRecord 0 p))) [] reqs" by simp
  show ?thesis
    using serves_no_assertion_failure [OF i f] serves_table_request_record [OF i]  f
    by blast
qed

theorem assertion_never_fails_witness:
  "followsProtocol (nGroups (fSt atOpening)) [] evening
   \<and> receptionistServes 1 evening (initGroupRecord 0 atOpening) \<noteq> Inl (AssertionFailed, atOpening)
   \<and> groupRecord (finalProc (receptionistServes 1 (take 1 evening) (initGroupRecord 0 atOpening))) 1
       = TOARRIVE"
proof -
  have f: "followsProtocol (nGroups (fSt atOpening)) [] evening"
    using evening_protocol by (simp add: atOpening_facts)
  from assertion_never_fails [OF f, of 1]
  have a: "\<forall>q. receptionistServes 1 evening (initGroupRecord 0 atOpening) \<noteq> Inl (AssertionFailed, q)"
    and b: "\<forall>rs r rest p1. evening = rs @ r # rest \<and> reqType r = TABLEREQ \<and>
              receptionistServes 1 rs (initGroupRecord 0 atOpening) = Inr p1
            \<longrightarrow> groupRecord p1 (reqGroup r) = TOARRIVE" by blast+
  have e: "evening = take 1 evening @ \<lparr>reqType = TABLEREQ, reqGroup = 1\<rparr> # drop 2 evening"
    by (simp add: evening_def)
  from b e evening_prefix_served [of 1]
  have "groupRecord (servedAll 1 (take 1 evening) atOpening)
          (reqGroup \<lparr>reqType = TABLEREQ, reqGroup = 1\<rparr>) = TOARRIVE"
    by (metis atOpening_init request.select_convs(1))
  with a f show ?thesis by (simp add: atOpening_init evening_prefix_served)
qed

end
